theory Spec2Isabelle
  imports Complex_Main
begin

section \<open>Lane values and four-wide vectors\<close>

text \<open>
  The kernels compute on SSE registers: \<open>ssef\<close> (four floats), \<open>sseb\<close> (four lane
  masks) and \<open>ssei\<close> (four 32-bit integers). A lane value is modelled by \<open>fl\<close>: the
  two infinities and the finite values, linearly ordered. Comparison, \<open>min\<close>, \<open>max\<close>
  and \<open>select\<close> are exact on such values. NaN is outside the model, and so is rounding:
  subtraction, multiplication and the safe reciprocal are not interpreted but taken as
  parameters (fields of the record \<open>kernels\<close> below), so every theorem holds for any rounding.
\<close>

datatype fl = NInf | Fin rat | PInf

instantiation fl :: linorder
begin

fun less_eq_fl :: "fl \<Rightarrow> fl \<Rightarrow> bool" where
  "less_eq_fl NInf b = True"
| "less_eq_fl (Fin a) NInf = False"
| "less_eq_fl (Fin a) (Fin b) = (a \<le> b)"
| "less_eq_fl (Fin a) PInf = True"
| "less_eq_fl PInf NInf = False"
| "less_eq_fl PInf (Fin b) = False"
| "less_eq_fl PInf PInf = True"

fun less_fl :: "fl \<Rightarrow> fl \<Rightarrow> bool" where
  "less_fl NInf NInf = False"
| "less_fl NInf (Fin b) = True"
| "less_fl NInf PInf = True"
| "less_fl (Fin a) NInf = False"
| "less_fl (Fin a) (Fin b) = (a < b)"
| "less_fl (Fin a) PInf = True"
| "less_fl PInf b = False"

instance
proof
  fix x y z :: fl
  show "(x < y) = (x \<le> y \<and> \<not> y \<le> x)"
    by (cases x; cases y) auto
  show "x \<le> x"
    by (cases x) auto
  show "x \<le> y \<Longrightarrow> y \<le> z \<Longrightarrow> x \<le> z"
    by (cases x; cases y; cases z) auto
  show "x \<le> y \<Longrightarrow> y \<le> x \<Longrightarrow> x = y"
    by (cases x; cases y) auto
  show "x \<le> y \<or> y \<le> x"
    by (cases x; cases y) auto
qed

end

datatype 'a v4 = V4 'a 'a 'a 'a

type_synonym ssef = "fl v4"
type_synonym sseb = "bool v4"
type_synonym ssei = "int v4"

text \<open>Lane \<open>i\<close> of a register, \<open>i < 4\<close>; the source never indexes further.\<close>

fun vget :: "'a v4 \<Rightarrow> nat \<Rightarrow> 'a" where
  "vget (V4 a b c d) i = (if i = 0 then a else if i = 1 then b else if i = 2 then c else d)"

fun vset :: "'a v4 \<Rightarrow> nat \<Rightarrow> 'a \<Rightarrow> 'a v4" where
  "vset (V4 a b c d) i e =
     (if i = 0 then V4 e b c d else if i = 1 then V4 a e c d
      else if i = 2 then V4 a b e d else V4 a b c e)"

definition splat :: "'a \<Rightarrow> 'a v4" where
  "splat a = V4 a a a a"

fun vzip :: "('a \<Rightarrow> 'b \<Rightarrow> 'c) \<Rightarrow> 'a v4 \<Rightarrow> 'b v4 \<Rightarrow> 'c v4" where
  "vzip f (V4 a b c d) (V4 a' b' c' d') = V4 (f a a') (f b b') (f c c') (f d d')"

fun select :: "sseb \<Rightarrow> 'a v4 \<Rightarrow> 'a v4 \<Rightarrow> 'a v4" where
  "select (V4 m0 m1 m2 m3) (V4 a b c d) (V4 a' b' c' d') =
     V4 (if m0 then a else a') (if m1 then b else b') (if m2 then c else c') (if m3 then d else d')"

definition vlt :: "ssef \<Rightarrow> ssef \<Rightarrow> sseb" where
  "vlt = vzip (<)"

definition vle :: "ssef \<Rightarrow> ssef \<Rightarrow> sseb" where
  "vle = vzip (\<le>)"

definition vgt :: "ssef \<Rightarrow> ssef \<Rightarrow> sseb" where
  "vgt a b = vlt b a"

definition vmin :: "ssef \<Rightarrow> ssef \<Rightarrow> ssef" where
  "vmin = vzip min"

definition vmax :: "ssef \<Rightarrow> ssef \<Rightarrow> ssef" where
  "vmax = vzip max"

definition vand :: "sseb \<Rightarrow> sseb \<Rightarrow> sseb" where
  "vand = vzip (\<and>)"

definition vor :: "sseb \<Rightarrow> sseb \<Rightarrow> sseb" where
  "vor = vzip (\<or>)"

definition vnot :: "sseb \<Rightarrow> sseb" where
  "vnot = map_v4 Not"

fun any :: "sseb \<Rightarrow> bool" where
  "any (V4 a b c d) = (a \<or> b \<or> c \<or> d)"

fun all :: "sseb \<Rightarrow> bool" where
  "all (V4 a b c d) = (a \<and> b \<and> c \<and> d)"

definition none :: "sseb \<Rightarrow> bool" where
  "none m = (\<not> any m)"

text \<open>
  \<open>movemask\<close> packs the four lane bits into an integer, \<open>__popcnt\<close> counts them and the
  loop \<open>for (i = __bsf(bits); bits != 0; bits = __btc(bits,i), i = __bsf(bits))\<close> visits
  the set bits from the lowest up. The model keeps the set bits as the ascending list of
  their lane numbers.
\<close>

definition movemask :: "sseb \<Rightarrow> nat list" where
  "movemask m = filter (vget m) [0, 1, 2, 3]"

definition popcnt :: "sseb \<Rightarrow> nat" where
  "popcnt m = length (movemask m)"


section \<open>Rays, nodes and the kernels taken as parameters\<close>

record sse3f =
  vx :: ssef
  vy :: ssef
  vz :: ssef

record sse3i =
  ix :: ssei
  iy :: ssei
  iz :: ssei

text \<open>
  \<open>Ray4\<close>: four rays in SoA form. The hit fields are \<open>Ng\<close>, \<open>hit_u\<close>, \<open>hit_v\<close>,
  \<open>geomID\<close>, \<open>primID\<close>, \<open>instID\<close>, and \<open>tfar\<close>, which a hit lowers.
\<close>

record ray4 =
  org :: sse3f
  dir :: sse3f
  tnear :: ssef
  tfar :: ssef
  time :: ssef
  ray_mask :: ssei
  Ng :: sse3f
  hit_u :: ssef
  hit_v :: ssef
  geomID :: ssei
  primID :: ssei
  instID :: ssei

text \<open>
  \<open>BVH4::Node\<close> stores its four children and, per coordinate, the four children's
  bounds in one register (\<open>lower_x[i]\<close> is child \<open>i\<close>'s lower x). \<open>BVH4::NodeMB\<close> adds a
  linear velocity to each of the six coordinates.
\<close>

record aabb4 =
  lower_x :: ssef
  lower_y :: ssef
  lower_z :: ssef
  upper_x :: ssef
  upper_y :: ssef
  upper_z :: ssef

text \<open>
  \<open>NodeRef\<close>: the stack-bottom sentinel \<open>BVH4::invalidNode\<close>, the absent child
  \<open>BVH4::emptyNode\<close>, a leaf with its primitives, a static node (children and bounds) or
  a motion-blur node (children, bounds at time 0 and their velocities). The tree is
  read-only, so a reference is modelled by the subtree it points to.
\<close>

datatype 'p noderef =
    InvalidNode
  | EmptyNode
  | Leaf "'p list"
  | Node "'p noderef v4" aabb4
  | NodeMB "'p noderef v4" aabb4 aabb4

fun isNode :: "'p noderef \<Rightarrow> bool" where
  "isNode (Node cs b) = True"
| "isNode n = False"

fun isNodeMB :: "'p noderef \<Rightarrow> bool" where
  "isNodeMB (NodeMB cs b db) = True"
| "isNodeMB n = False"

datatype error = StackUnderflow | StackOverflow | StackNotEmpty | MalformedNode

text \<open>
  Modelled from the spec: \<open>NodeRef::leaf(items)\<close> is declared in \<open>bvh4.h\<close>, which is not
  among the sources. A leaf carries its primitives, the empty node is an absent child with
  none, and a reference that is none of the kinds the walker handles is a fatal assertion.
\<close>

fun leaf :: "'p noderef \<Rightarrow> error + 'p list" where
  "leaf (Leaf ps) = Inr ps"
| "leaf EmptyNode = Inr []"
| "leaf n = Inl MalformedNode"

text \<open>
  What the walker is instantiated with or calls, and what is not among the sources:
  the template arguments \<open>types\<close> and \<open>PrimitiveIntersector4\<close> (its \<open>Precalculations\<close>,
  \<open>intersect\<close> and \<open>occluded\<close>; the scene they read is part of them), the constant
  \<open>stackSizeChunk\<close>, the single-ray walker \<open>BVH4Intersector4Single\<close> (\<open>intersect1\<close>,
  \<open>occluded1\<close>), the float operations, the fused \<open>msub a b c\<close> (\<open>a * b - c\<close> rounded
  once), \<open>rcp_safe\<close> and the three-argument \<open>store4i\<close>. \<open>avx2\<close> is whether the build
  defines \<open>__AVX2__\<close>, which selects the branch of the static box test.
  The ray is passed by reference, so each kernel returns the ray it leaves behind;
  \<open>store4i m old val\<close> returns the new content of the four integers it is pointed at.
\<close>

record ('p, 'c) kernels =
  types :: nat
  stackSizeChunk :: nat
  avx2 :: bool
  fadd :: "fl \<Rightarrow> fl \<Rightarrow> fl"
  fsub :: "fl \<Rightarrow> fl \<Rightarrow> fl"
  fmul :: "fl \<Rightarrow> fl \<Rightarrow> fl"
  msub :: "fl \<Rightarrow> fl \<Rightarrow> fl \<Rightarrow> fl"
  rcp_safe :: "fl \<Rightarrow> fl"
  Precalculations :: "sseb \<Rightarrow> ray4 \<Rightarrow> 'c"
  prim_intersect :: "sseb \<Rightarrow> 'c \<Rightarrow> ray4 \<Rightarrow> 'p list \<Rightarrow> ray4"
  prim_occluded :: "sseb \<Rightarrow> 'c \<Rightarrow> ray4 \<Rightarrow> 'p list \<Rightarrow> sseb \<times> ray4"
  intersect1 :: "'p noderef \<Rightarrow> nat \<Rightarrow> 'c \<Rightarrow> ray4 \<Rightarrow> sse3f \<Rightarrow> sse3f \<Rightarrow> sse3f \<Rightarrow> ssef \<Rightarrow> ssef \<Rightarrow> sse3i \<Rightarrow> ray4"
  occluded1 :: "'p noderef \<Rightarrow> nat \<Rightarrow> 'c \<Rightarrow> ray4 \<Rightarrow> sse3f \<Rightarrow> sse3f \<Rightarrow> sse3f \<Rightarrow> ssef \<Rightarrow> ssef \<Rightarrow> sse3i \<Rightarrow> bool \<times> ray4"
  store4i :: "sseb \<Rightarrow> ssei \<Rightarrow> ssei \<Rightarrow> ssei"

definition SWITCH_THRESHOLD :: nat where
  "SWITCH_THRESHOLD = 3"

definition inf_ssef :: ssef where
  "inf_ssef = splat PInf"

section \<open>Ray/box intersection\<close>

text \<open>
  What the prologue of both entry points computes from the ray and keeps in registers:
  the entry mask, origin, direction, reciprocal direction, \<open>org_rdir = org * rdir\<close>, the
  forced \<open>ray_tnear\<close>, the precalculations and the near offsets.
\<close>

record 'c frame =
  valid0 :: sseb
  ray_org :: sse3f
  ray_dir :: sse3f
  rdir :: sse3f
  org_rdir :: sse3f
  ray_tnear :: ssef
  pre :: 'c
  nearXYZ :: sse3i

text \<open>
  \<open>mini\<close> and \<open>maxi\<close> are declared in the SIMD headers, which are not among the sources:
  the minimum and the maximum of the two bit patterns read as signed integers. On the
  values of \<open>fl\<close> this is the order of the floats, except that it is reversed between two
  negative values (the sign of zero is outside \<open>fl\<close>).
\<close>

definition mini :: "fl \<Rightarrow> fl \<Rightarrow> fl" where
  "mini a b = (if a < Fin 0 \<and> b < Fin 0 then max a b else min a b)"

definition maxi :: "fl \<Rightarrow> fl \<Rightarrow> fl" where
  "maxi a b = (if a < Fin 0 \<and> b < Fin 0 then min a b else max a b)"

definition vmini :: "ssef \<Rightarrow> ssef \<Rightarrow> ssef" where
  "vmini a b = vzip mini a b"

definition vmaxi :: "ssef \<Rightarrow> ssef \<Rightarrow> ssef" where
  "vmaxi a b = vzip maxi a b"

text \<open>
  The test of child \<open>i\<close> of a static node, as the walker writes it inline, in both
  branches of \<open>#if defined(__AVX2__)\<close>: with AVX2 the six distances are
  \<open>msub(bound, rdir, org_rdir)\<close> and they are compared with \<open>mini\<close> and \<open>maxi\<close>,
  without it they are \<open>(bound - org) * rdir\<close>, compared with \<open>min\<close> and \<open>max\<close>. The test
  yields the hit mask \<open>lhit\<close> and the distance \<open>lnearP\<close> that the walker stores as the
  child's \<open>childDist\<close>.
\<close>

definition clip :: "('p, 'c) kernels \<Rightarrow> fl \<Rightarrow> ssef \<Rightarrow> ssef \<Rightarrow> ssef" where
  "clip K b o_axis rdir_axis = vzip (fmul K) (vzip (fsub K) (splat b) o_axis) rdir_axis"

definition clip_msub :: "('p, 'c) kernels \<Rightarrow> fl \<Rightarrow> ssef \<Rightarrow> ssef \<Rightarrow> ssef" where
  "clip_msub K b rdir_axis org_rdir_axis = vzip (msub K b) rdir_axis org_rdir_axis"

definition lnearP :: "('p, 'c) kernels \<Rightarrow> 'c frame \<Rightarrow> aabb4 \<Rightarrow> nat \<Rightarrow> ssef" where
  "lnearP K F node i =
     (if avx2 K then
        let lclipMinX = clip_msub K (vget (lower_x node) i) (vx (rdir F)) (vx (org_rdir F));
            lclipMinY = clip_msub K (vget (lower_y node) i) (vy (rdir F)) (vy (org_rdir F));
            lclipMinZ = clip_msub K (vget (lower_z node) i) (vz (rdir F)) (vz (org_rdir F));
            lclipMaxX = clip_msub K (vget (upper_x node) i) (vx (rdir F)) (vx (org_rdir F));
            lclipMaxY = clip_msub K (vget (upper_y node) i) (vy (rdir F)) (vy (org_rdir F));
            lclipMaxZ = clip_msub K (vget (upper_z node) i) (vz (rdir F)) (vz (org_rdir F))
        in vmaxi (vmaxi (vmini lclipMinX lclipMaxX) (vmini lclipMinY lclipMaxY)) (vmini lclipMinZ lclipMaxZ)
      else
        let lclipMinX = clip K (vget (lower_x node) i) (vx (ray_org F)) (vx (rdir F));
            lclipMinY = clip K (vget (lower_y node) i) (vy (ray_org F)) (vy (rdir F));
            lclipMinZ = clip K (vget (lower_z node) i) (vz (ray_org F)) (vz (rdir F));
            lclipMaxX = clip K (vget (upper_x node) i) (vx (ray_org F)) (vx (rdir F));
            lclipMaxY = clip K (vget (upper_y node) i) (vy (ray_org F)) (vy (rdir F));
            lclipMaxZ = clip K (vget (upper_z node) i) (vz (ray_org F)) (vz (rdir F))
        in vmax (vmax (vmin lclipMinX lclipMaxX) (vmin lclipMinY lclipMaxY)) (vmin lclipMinZ lclipMaxZ))"

definition lfarP :: "('p, 'c) kernels \<Rightarrow> 'c frame \<Rightarrow> aabb4 \<Rightarrow> nat \<Rightarrow> ssef" where
  "lfarP K F node i =
     (if avx2 K then
        let lclipMinX = clip_msub K (vget (lower_x node) i) (vx (rdir F)) (vx (org_rdir F));
            lclipMinY = clip_msub K (vget (lower_y node) i) (vy (rdir F)) (vy (org_rdir F));
            lclipMinZ = clip_msub K (vget (lower_z node) i) (vz (rdir F)) (vz (org_rdir F));
            lclipMaxX = clip_msub K (vget (upper_x node) i) (vx (rdir F)) (vx (org_rdir F));
            lclipMaxY = clip_msub K (vget (upper_y node) i) (vy (rdir F)) (vy (org_rdir F));
            lclipMaxZ = clip_msub K (vget (upper_z node) i) (vz (rdir F)) (vz (org_rdir F))
        in vmini (vmini (vmaxi lclipMinX lclipMaxX) (vmaxi lclipMinY lclipMaxY)) (vmaxi lclipMinZ lclipMaxZ)
      else
        let lclipMinX = clip K (vget (lower_x node) i) (vx (ray_org F)) (vx (rdir F));
            lclipMinY = clip K (vget (lower_y node) i) (vy (ray_org F)) (vy (rdir F));
            lclipMinZ = clip K (vget (lower_z node) i) (vz (ray_org F)) (vz (rdir F));
            lclipMaxX = clip K (vget (upper_x node) i) (vx (ray_org F)) (vx (rdir F));
            lclipMaxY = clip K (vget (upper_y node) i) (vy (ray_org F)) (vy (rdir F));
            lclipMaxZ = clip K (vget (upper_z node) i) (vz (ray_org F)) (vz (rdir F))
        in vmin (vmin (vmax lclipMinX lclipMaxX) (vmax lclipMinY lclipMaxY)) (vmax lclipMinZ lclipMaxZ))"

definition lhit :: "('p, 'c) kernels \<Rightarrow> 'c frame \<Rightarrow> aabb4 \<Rightarrow> nat \<Rightarrow> ssef \<Rightarrow> sseb" where
  "lhit K F node i ray_tfar =
     (if avx2 K
      then vle (vmaxi (lnearP K F node i) (ray_tnear F)) (vmini (lfarP K F node i) ray_tfar)
      else vle (vmax (lnearP K F node i) (ray_tnear F)) (vmin (lfarP K F node i) ray_tfar))"

text \<open>
  \<open>intersectBox\<close>, the test of child \<open>i\<close> of a motion-blur node: the bounds are moved to
  each lane's time, the near bound is the ray's own \<open>tnear\<close> field and the far bound the
  working \<open>ray_tfar\<close>. It returns the hit mask and, through \<open>dist\<close>, the near distance.
  The four-argument \<open>max\<close> and \<open>min\<close> are declared in the SIMD headers; on ordered
  values every bracketing gives the same result.
\<close>

definition max4 :: "ssef \<Rightarrow> ssef \<Rightarrow> ssef \<Rightarrow> ssef \<Rightarrow> ssef" where
  "max4 a b c d = vmax (vmax a b) (vmax c d)"

definition min4 :: "ssef \<Rightarrow> ssef \<Rightarrow> ssef \<Rightarrow> ssef \<Rightarrow> ssef" where
  "min4 a b c d = vmin (vmin a b) (vmin c d)"

definition moved :: "('p, 'c) kernels \<Rightarrow> ray4 \<Rightarrow> fl \<Rightarrow> fl \<Rightarrow> ssef" where
  "moved K ray b db = vzip (fadd K) (splat b) (vzip (fmul K) (time ray) (splat db))"

definition intersectBox ::
  "('p, 'c) kernels \<Rightarrow> ray4 \<Rightarrow> ssef \<Rightarrow> sse3f \<Rightarrow> aabb4 \<Rightarrow> aabb4 \<Rightarrow> nat \<Rightarrow> sseb \<times> ssef" where
  "intersectBox K ray ray_tfar rd node dnode i =
     (let lower_x' = moved K ray (vget (lower_x node) i) (vget (lower_x dnode) i);
          lower_y' = moved K ray (vget (lower_y node) i) (vget (lower_y dnode) i);
          lower_z' = moved K ray (vget (lower_z node) i) (vget (lower_z dnode) i);
          upper_x' = moved K ray (vget (upper_x node) i) (vget (upper_x dnode) i);
          upper_y' = moved K ray (vget (upper_y node) i) (vget (upper_y dnode) i);
          upper_z' = moved K ray (vget (upper_z node) i) (vget (upper_z dnode) i);
          dminx = vzip (fmul K) (vzip (fsub K) lower_x' (vx (org ray))) (vx rd);
          dminy = vzip (fmul K) (vzip (fsub K) lower_y' (vy (org ray))) (vy rd);
          dminz = vzip (fmul K) (vzip (fsub K) lower_z' (vz (org ray))) (vz rd);
          dmaxx = vzip (fmul K) (vzip (fsub K) upper_x' (vx (org ray))) (vx rd);
          dmaxy = vzip (fmul K) (vzip (fsub K) upper_y' (vy (org ray))) (vy rd);
          dmaxz = vzip (fmul K) (vzip (fsub K) upper_z' (vz (org ray))) (vz rd);
          dlowerx = vmin dminx dmaxx;
          dlowery = vmin dminy dmaxy;
          dlowerz = vmin dminz dmaxz;
          dupperx = vmax dminx dmaxx;
          duppery = vmax dminy dmaxy;
          dupperz = vmax dminz dmaxz;
          near = max4 dlowerx dlowery dlowerz (tnear ray);
          far = min4 dupperx duppery dupperz ray_tfar
      in (vle near far, near))"


section \<open>Lane-wise facts\<close>

lemma lt4: "(l::nat) < 4 \<longleftrightarrow> l = 0 \<or> l = 1 \<or> l = 2 \<or> l = 3"
  by arith

lemma ex_lt4: "(\<exists>l<4::nat. P l) = (P 0 \<or> P 1 \<or> P 2 \<or> P 3)"
  by (auto simp: lt4)

lemma all_lt4: "(\<forall>l<4::nat. P l) = (P 0 \<and> P 1 \<and> P 2 \<and> P 3)"
  by (auto simp: lt4)

lemma vget_vzip: "vget (vzip f a b) l = f (vget a l) (vget b l)"
  by (cases a; cases b) simp

lemma vget_map: "vget (map_v4 f a) l = f (vget a l)"
  by (cases a) simp

lemma vget_splat: "vget (splat a) l = a"
  by (simp add: splat_def)

lemma vget_select: "vget (select m a b) l = (if vget m l then vget a l else vget b l)"
  by (cases m; cases a; cases b) simp

lemma any_iff: "any m = (\<exists>l<4. vget m l)"
  by (cases m) (simp add: ex_lt4)

lemma all_iff: "all m = (\<forall>l<4. vget m l)"
  by (cases m) (simp add: all_lt4)


lemma movemask_iff: "l \<in> set (movemask m) \<longleftrightarrow> l < 4 \<and> vget m l"
proof -
  have "l \<in> set (movemask m) \<longleftrightarrow> l \<in> set [0, 1, 2, 3] \<and> vget m l"
    unfolding movemask_def set_filter by blast
  moreover have "l \<in> set [0, 1, 2, 3::nat] \<longleftrightarrow> l < 4"
    by (auto simp: lt4)
  ultimately show ?thesis by simp
qed

lemma popcnt_0: "popcnt m = 0 \<longleftrightarrow> none m"
  by (cases m) (simp add: popcnt_def movemask_def none_def)

lemma popcnt_le4: "popcnt m \<le> 4"
  by (cases m) (simp add: popcnt_def movemask_def)


section \<open>The hybrid walker\<close>

text \<open>
  The packet stack: \<open>stack_node\<close> and \<open>stack_near\<close> hold the node and the per-lane
  near distance of each entry; the list's head is the entry below \<open>sptr_node\<close>. A push
  asserts \<open>sptr_node < stackEnd\<close>, that is fewer than \<open>stackSizeChunk\<close> entries so far.
\<close>

type_synonym 'p stack = "('p noderef \<times> ssef) list"

definition visit_child ::
  "('p, 'c) kernels \<Rightarrow> 'p noderef \<Rightarrow> sseb \<times> ssef \<Rightarrow> 'p stack \<times> 'p noderef \<times> ssef
     \<Rightarrow> error + ('p stack \<times> 'p noderef \<times> ssef)" where
  "visit_child K child test = (\<lambda>(stack, curNode, curDist).
     if any (fst test) then
       if length stack < stackSizeChunk K then
         let childDist = select (fst test) (snd test) inf_ssef in
         if any (vlt childDist curDist)
         then Inr ((curNode, curDist) # stack, child, childDist)
         else Inr ((child, childDist) # stack, curNode, curDist)
       else Inl StackOverflow
     else Inr (stack, curNode, curDist))"

fun children_loop ::
  "('p, 'c) kernels \<Rightarrow> 'p noderef v4 \<Rightarrow> (nat \<Rightarrow> sseb \<times> ssef) \<Rightarrow> nat list
     \<Rightarrow> 'p stack \<times> 'p noderef \<times> ssef \<Rightarrow> error + ('p stack \<times> 'p noderef \<times> ssef)" where
  "children_loop K children test [] st = Inr st"
| "children_loop K children test (i # is) st =
     (let child = vget children i in
      if child = EmptyNode then Inr st
      else case visit_child K child (test i) st of
             Inl e \<Rightarrow> Inl e
           | Inr st' \<Rightarrow> children_loop K children test is st')"

fun nsize :: "'p noderef \<Rightarrow> nat" where
  "nsize (Node (V4 a b c d) bb) = Suc (nsize a + nsize b + nsize c + nsize d)"
| "nsize (NodeMB (V4 a b c d) bb db) = Suc (nsize a + nsize b + nsize c + nsize d)"
| "nsize n = 1"

definition weight :: "'p stack \<Rightarrow> nat" where
  "weight stack = sum_list (map (\<lambda>e. nsize (fst e)) stack)"

lemma nsize_pos: "0 < nsize n"
  by (cases n rule: nsize.cases) auto

lemma visit_child_weight:
  "visit_child K child t (s, n, d) = Inr (s', n', d') \<Longrightarrow>
     weight s' + nsize n' \<le> weight s + nsize n + nsize child"
  by (auto simp: visit_child_def weight_def Let_def split: if_splits)

lemma children_loop_weight:
  "children_loop K cs t is (s, n, d) = Inr (s', n', d') \<Longrightarrow>
     weight s' + nsize n' \<le> weight s + nsize n + sum_list (map (\<lambda>i. nsize (vget cs i)) is)"
proof (induction "is" arbitrary: s n d)
  case Nil
  then show ?case by simp
next
  case (Cons i "is")
  show ?case
  proof (cases "vget cs i = EmptyNode")
    case True
    with Cons.prems show ?thesis by simp
  next
    case False
    with Cons.prems obtain s1 n1 d1 where
      v: "visit_child K (vget cs i) (t i) (s, n, d) = Inr (s1, n1, d1)" and
      r: "children_loop K cs t is (s1, n1, d1) = Inr (s', n', d')"
      by (auto simp: Let_def split: sum.splits)
    from visit_child_weight[OF v] Cons.IH[OF r] show ?thesis by simp
  qed
qed

lemma nsize_Node: "nsize (Node cs bb) = Suc (sum_list (map (\<lambda>i. nsize (vget cs i)) [0, 1, 2, 3]))"
  by (cases cs) simp

lemma nsize_NodeMB: "nsize (NodeMB cs bb db) = Suc (sum_list (map (\<lambda>i. nsize (vget cs i)) [0, 1, 2, 3]))"
  by (cases cs) simp

datatype 'p down = Switch "'p stack" | Arrived "'p stack" "'p noderef" ssef

definition test_node :: "('p, 'c) kernels \<Rightarrow> 'c frame \<Rightarrow> ssef \<Rightarrow> aabb4 \<Rightarrow> nat \<Rightarrow> sseb \<times> ssef" where
  "test_node K F ray_tfar node i = (lhit K F node i ray_tfar, lnearP K F node i)"

definition pop_children ::
  "('p, 'c) kernels \<Rightarrow> 'p noderef v4 \<Rightarrow> (nat \<Rightarrow> sseb \<times> ssef) \<Rightarrow> 'p stack
     \<Rightarrow> error + ('p stack \<times> 'p noderef \<times> ssef)" where
  "pop_children K children test stack =
     (case stack of
        [] \<Rightarrow> Inl StackUnderflow
      | (curNode, curDist) # stack' \<Rightarrow> children_loop K children test [0, 1, 2, 3] (stack', curNode, curDist))"

fun node_step ::
  "('p, 'c) kernels \<Rightarrow> 'c frame \<Rightarrow> ray4 \<Rightarrow> ssef \<Rightarrow> 'p stack \<Rightarrow> 'p noderef
     \<Rightarrow> (error + ('p stack \<times> 'p noderef \<times> ssef)) option" where
  "node_step K F ray ray_tfar stack (Node children node) =
     (if bit (types K) 0
      then Some (pop_children K children (test_node K F ray_tfar node) stack)
      else None)"
| "node_step K F ray ray_tfar stack (NodeMB children node dnode) =
     (if bit (types K) 4
      then Some (pop_children K children (intersectBox K ray ray_tfar (rdir F) node dnode) stack)
      else None)"
| "node_step K F ray ray_tfar stack curNode = None"

lemma node_step_weight:
  assumes "node_step K F ray ray_tfar stack curNode = Some (Inr (s', n', d'))"
  shows "weight s' + nsize n' < weight stack + nsize curNode"
proof -
  have pc: "weight s' + nsize n' \<le> weight stack + sum_list (map (\<lambda>i. nsize (vget cs i)) [0, 1, 2, 3])"
    if "pop_children K cs t stack = Inr (s', n', d')" for cs t
  proof (cases stack)
    case Nil
    with that show ?thesis by (simp add: pop_children_def)
  next
    case (Cons e stack')
    obtain n d where e: "e = (n, d)" by (cases e)
    from that Cons e have "children_loop K cs t [0, 1, 2, 3] (stack', n, d) = Inr (s', n', d')"
      by (simp add: pop_children_def)
    from children_loop_weight[OF this] show ?thesis
      by (simp add: Cons e weight_def)
  qed
  show ?thesis
  proof (cases curNode)
    case (Node cs bb)
    with assms have "pop_children K cs (test_node K F ray_tfar bb) stack = Inr (s', n', d')"
      by (simp split: if_splits)
    from pc[OF this] show ?thesis by (simp add: Node nsize_Node)
  next
    case (NodeMB cs bb db)
    with assms have "pop_children K cs (intersectBox K ray ray_tfar (rdir F) bb db) stack = Inr (s', n', d')"
      by (simp split: if_splits)
    from pc[OF this] show ?thesis by (simp add: NodeMB nsize_NodeMB)
  qed (use assms in simp_all)
qed

function traverse ::
  "('p, 'c) kernels \<Rightarrow> 'c frame \<Rightarrow> ray4 \<Rightarrow> ssef \<Rightarrow> 'p stack \<Rightarrow> 'p noderef \<Rightarrow> ssef \<Rightarrow> error + 'p down" where
  "traverse K F ray ray_tfar stack curNode curDist =
     (case node_step K F ray ray_tfar stack curNode of
        None \<Rightarrow> Inr (Arrived stack curNode curDist)
      | Some (Inl e) \<Rightarrow> Inl e
      | Some (Inr (stack', curNode', curDist')) \<Rightarrow>
          if popcnt (vgt ray_tfar curDist') \<le> SWITCH_THRESHOLD then
            (if length stack' < stackSizeChunk K
             then Inr (Switch ((curNode', curDist') # stack'))
             else Inl StackOverflow)
          else traverse K F ray ray_tfar stack' curNode' curDist')"
  by pat_completeness auto
termination
  by (relation "measure (\<lambda>(K, F, ray, ray_tfar, stack, curNode, curDist). weight stack + nsize curNode)")
     (auto dest: node_step_weight)

declare traverse.simps [simp del]

lemma traverse_weight:
  "traverse K F ray ray_tfar stack curNode curDist = Inr r \<Longrightarrow>
     (case r of Switch s' \<Rightarrow> weight s' < weight stack + nsize curNode
              | Arrived s' n' d' \<Rightarrow> weight s' + nsize n' \<le> weight stack + nsize curNode)"
proof (induction K F ray ray_tfar stack curNode curDist rule: traverse.induct)
  case (1 K F ray ray_tfar stack curNode curDist)
  show ?case
  proof (cases "node_step K F ray ray_tfar stack curNode")
    case None
    with "1.prems" show ?thesis by (auto simp: traverse.simps[of K F ray ray_tfar stack curNode curDist])
  next
    case (Some a)
    note unf = traverse.simps[of K F ray ray_tfar stack curNode curDist]
    show ?thesis
    proof (cases a)
      case (Inl e)
      with Some "1.prems" show ?thesis by (simp add: unf)
    next
      case (Inr t)
      obtain s1 n1 d1 where t: "t = (s1, n1, d1)" by (cases t)
      note ns = node_step_weight[OF Some[unfolded Inr t]]
      show ?thesis
      proof (cases "popcnt (vgt ray_tfar d1) \<le> SWITCH_THRESHOLD")
        case True
        with Some Inr t "1.prems" have "r = Switch ((n1, d1) # s1)"
          by (auto simp: unf split: if_splits)
        with ns show ?thesis by (simp add: weight_def)
      next
        case False
        with Some Inr t "1.prems" have "traverse K F ray ray_tfar s1 n1 d1 = Inr r"
          by (simp add: unf)
        from "1.IH"[OF Some Inr t[symmetric] refl False this] ns show ?thesis
          by (cases r) auto
      qed
    qed
  qed
qed


text \<open>
  One pass of the outer \<open>while (1)\<close> either leaves the loop (\<open>break\<close>) or hands the
  loop variables to the next pass, which starts at the label \<open>pop\<close> (\<open>continue\<close>,
  \<open>goto pop\<close> and the end of the body all lead there).
\<close>

datatype ('a, 's) pass = Break 'a | Continue 's

record 'p walk =
  stack :: "'p stack"
  ray :: ray4
  ray_tfar :: ssef

record 'p walk_occluded = "'p walk" +
  terminated :: sseb

definition walk_lanes ::
  "('p, 'c) kernels \<Rightarrow> 'c frame \<Rightarrow> 'p noderef \<Rightarrow> ssef \<Rightarrow> nat list \<Rightarrow> ray4 \<Rightarrow> ray4" where
  "walk_lanes K F curNode tf bits r =
     fold (\<lambda>i r. intersect1 K curNode i (pre F) r (ray_org F) (ray_dir F) (rdir F) (ray_tnear F) tf (nearXYZ F))
       bits r"

definition at_sentinel :: "'p stack \<Rightarrow> 'a \<Rightarrow> error + 'a" where
  "at_sentinel stack' result = (if stack' = [] then Inr result else Inl StackNotEmpty)"

definition intersect_pass ::
  "('p, 'c) kernels \<Rightarrow> 'c frame \<Rightarrow> 'p walk \<Rightarrow> (error + ray4, 'p walk) pass" where
  "intersect_pass K F s =
     (case stack s of
        [] \<Rightarrow> Break (Inl StackUnderflow)
      | (curNode, curDist) # stack' \<Rightarrow>
          if curNode = InvalidNode then Break (at_sentinel stack' (ray s))
          else
            let active = vlt curDist (ray_tfar s) in
            if none active then Continue (s\<lparr>stack := stack'\<rparr>)
            else if popcnt active \<le> SWITCH_THRESHOLD then
              (let ray' = walk_lanes K F curNode (ray_tfar s) (movemask active) (ray s)
               in Continue \<lparr>stack = stack', ray = ray', ray_tfar = vmin (ray_tfar s) (tfar ray')\<rparr>)
            else
              (case traverse K F (ray s) (ray_tfar s) stack' curNode curDist of
                 Inl e \<Rightarrow> Break (Inl e)
               | Inr (Switch stack'') \<Rightarrow> Continue (s\<lparr>stack := stack''\<rparr>)
               | Inr (Arrived stack'' curNode' curDist') \<Rightarrow>
                   if curNode' = InvalidNode then Break (at_sentinel stack'' (ray s))
                   else
                     let valid_leaf = vgt (ray_tfar s) curDist' in
                     (case leaf curNode' of
                        Inl e \<Rightarrow> Break (Inl e)
                      | Inr prim \<Rightarrow>
                          let ray' = prim_intersect K valid_leaf (pre F) (ray s) prim
                          in Continue \<lparr>stack = stack'', ray = ray',
                                       ray_tfar = select valid_leaf (tfar ray') (ray_tfar s)\<rparr>)))"

lemma weight_Cons: "weight ((n, d) # s) = nsize n + weight s"
  by (simp add: weight_def)

lemma intersect_pass_weight:
  assumes "intersect_pass K F s = Continue s'"
  shows "weight (stack s') < weight (stack s)"
proof (cases "stack s")
  case Nil
  with assms show ?thesis by (simp add: intersect_pass_def)
next
  case (Cons e stack')
  obtain n d where e: "e = (n, d)" by (cases e)
  note st = Cons[unfolded e]
  show ?thesis
  proof (cases "n \<noteq> InvalidNode \<and> \<not> none (vlt d (ray_tfar s)) \<and> \<not> popcnt (vlt d (ray_tfar s)) \<le> SWITCH_THRESHOLD")
    case False
    with assms st nsize_pos[of n] show ?thesis
      by (auto simp: intersect_pass_def Let_def weight_Cons split: if_splits)
  next
    case True
    show ?thesis
    proof (cases "traverse K F (ray s) (ray_tfar s) stack' n d")
      case (Inl err)
      with assms st True show ?thesis by (simp add: intersect_pass_def Let_def)
    next
      case (Inr r)
      show ?thesis
      proof (cases r)
        case (Switch s1)
        with traverse_weight[OF Inr] assms st True Inr show ?thesis
          by (auto simp: intersect_pass_def Let_def weight_Cons)
      next
        case (Arrived s1 n1 d1)
        with traverse_weight[OF Inr] assms st True Inr nsize_pos[of n1] show ?thesis
          by (auto simp: intersect_pass_def Let_def weight_Cons at_sentinel_def split: if_splits sum.splits)
      qed
    qed
  qed
qed

function intersect_loop :: "('p, 'c) kernels \<Rightarrow> 'c frame \<Rightarrow> 'p walk \<Rightarrow> error + ray4" where
  "intersect_loop K F s =
     (case intersect_pass K F s of Break result \<Rightarrow> result | Continue s' \<Rightarrow> intersect_loop K F s')"
  by pat_completeness auto
termination
  by (relation "measure (\<lambda>(K, F, s). weight (stack s))") (auto dest: intersect_pass_weight)


declare intersect_loop.simps [simp del]

definition walk_lanes_occluded ::
  "('p, 'c) kernels \<Rightarrow> 'c frame \<Rightarrow> 'p noderef \<Rightarrow> ssef \<Rightarrow> nat list \<Rightarrow> ray4 \<times> sseb \<Rightarrow> ray4 \<times> sseb" where
  "walk_lanes_occluded K F curNode tf bits =
     fold (\<lambda>i (r, t).
             case occluded1 K curNode i (pre F) r (ray_org F) (ray_dir F) (rdir F) (ray_tnear F) tf (nearXYZ F) of
               (hit, r') \<Rightarrow> (r', if hit then vset t i True else t))
       bits"

definition occluded_pass ::
  "('p, 'c) kernels \<Rightarrow> 'c frame \<Rightarrow> 'p walk_occluded \<Rightarrow> (error + ray4 \<times> sseb, 'p walk_occluded) pass" where
  "occluded_pass K F s =
     (case stack s of
        [] \<Rightarrow> Break (Inl StackUnderflow)
      | (curNode, curDist) # stack' \<Rightarrow>
          if curNode = InvalidNode then Break (at_sentinel stack' (ray s, terminated s))
          else
            let active = vlt curDist (ray_tfar s) in
            if none active then Continue (s\<lparr>stack := stack'\<rparr>)
            else if popcnt active \<le> SWITCH_THRESHOLD then
              (case walk_lanes_occluded K F curNode (ray_tfar s) (movemask active) (ray s, terminated s) of
                 (ray', terminated') \<Rightarrow>
                   if all terminated' then Break (Inr (ray', terminated'))
                   else Continue \<lparr>stack = stack', ray = ray',
                                   ray_tfar = select terminated' (splat NInf) (ray_tfar s),
                                   terminated = terminated'\<rparr>)
            else
              (case traverse K F (ray s) (ray_tfar s) stack' curNode curDist of
                 Inl e \<Rightarrow> Break (Inl e)
               | Inr (Switch stack'') \<Rightarrow> Continue (s\<lparr>stack := stack''\<rparr>)
               | Inr (Arrived stack'' curNode' curDist') \<Rightarrow>
                   if curNode' = InvalidNode then Break (at_sentinel stack'' (ray s, terminated s))
                   else
                     (case leaf curNode' of
                        Inl e \<Rightarrow> Break (Inl e)
                      | Inr prim \<Rightarrow>
                          (case prim_occluded K (vnot (terminated s)) (pre F) (ray s) prim of
                             (hit, ray') \<Rightarrow>
                               let terminated' = vor (terminated s) hit in
                               if all terminated' then Break (Inr (ray', terminated'))
                               else Continue \<lparr>stack = stack'', ray = ray',
                                               ray_tfar = select terminated' (splat NInf) (ray_tfar s),
                                               terminated = terminated'\<rparr>))))"

lemma occluded_pass_weight:
  assumes "occluded_pass K F s = Continue s'"
  shows "weight (stack s') < weight (stack s)"
proof (cases "stack s")
  case Nil
  with assms show ?thesis by (simp add: occluded_pass_def)
next
  case (Cons e stack')
  obtain n d where e: "e = (n, d)" by (cases e)
  note st = Cons[unfolded e]
  show ?thesis
  proof (cases "n \<noteq> InvalidNode \<and> \<not> none (vlt d (ray_tfar s)) \<and> \<not> popcnt (vlt d (ray_tfar s)) \<le> SWITCH_THRESHOLD")
    case False
    with assms st nsize_pos[of n] show ?thesis
      by (auto simp: occluded_pass_def Let_def weight_Cons split: if_splits prod.splits)
  next
    case True
    show ?thesis
    proof (cases "traverse K F (ray s) (ray_tfar s) stack' n d")
      case (Inl err)
      with assms st True show ?thesis by (simp add: occluded_pass_def Let_def)
    next
      case (Inr r)
      show ?thesis
      proof (cases r)
        case (Switch s1)
        with traverse_weight[OF Inr] assms st True Inr show ?thesis
          by (auto simp: occluded_pass_def Let_def weight_Cons)
      next
        case (Arrived s1 n1 d1)
        with traverse_weight[OF Inr] assms st True Inr nsize_pos[of n1] show ?thesis
          by (auto simp: occluded_pass_def Let_def weight_Cons at_sentinel_def
                   split: if_splits sum.splits prod.splits)
      qed
    qed
  qed
qed

function occluded_loop ::
  "('p, 'c) kernels \<Rightarrow> 'c frame \<Rightarrow> 'p walk_occluded \<Rightarrow> error + ray4 \<times> sseb" where
  "occluded_loop K F s =
     (case occluded_pass K F s of Break result \<Rightarrow> result | Continue s' \<Rightarrow> occluded_loop K F s')"
  by pat_completeness auto
termination
  by (relation "measure (\<lambda>(K, F, s). weight (stack s))") (auto dest: occluded_pass_weight)

declare occluded_loop.simps [simp del]

text \<open>The states that the passes of a loop go through, from a first state on.\<close>

inductive passes :: "('s \<Rightarrow> ('a, 's) pass) \<Rightarrow> 's \<Rightarrow> 's \<Rightarrow> bool" for body :: "'s \<Rightarrow> ('a, 's) pass" where
  first: "passes body s s"
| later: "passes body s s' \<Longrightarrow> body s' = Continue s'' \<Longrightarrow> passes body s s''"

text \<open>
  The prologue of both entry points: the ray is loaded, the reciprocal direction,
  \<open>org * rdir\<close> and the per-axis near offsets are computed, and for inactive lanes \<open>tnear\<close> is forced to
  \<open>+\<infinity>\<close>; \<open>tfar\<close> is forced to \<open>-\<infinity>\<close> in the first state. The stack starts with the
  sentinel and, above it, the root at distance \<open>ray_tnear\<close>.
\<close>

definition rcp_safe3 :: "('p, 'c) kernels \<Rightarrow> sse3f \<Rightarrow> sse3f" where
  "rcp_safe3 K d = \<lparr>vx = map_v4 (rcp_safe K) (vx d), vy = map_v4 (rcp_safe K) (vy d), vz = map_v4 (rcp_safe K) (vz d)\<rparr>"

definition mul3 :: "('p, 'c) kernels \<Rightarrow> sse3f \<Rightarrow> sse3f \<Rightarrow> sse3f" where
  "mul3 K a b = \<lparr>vx = vzip (fmul K) (vx a) (vx b), vy = vzip (fmul K) (vy a) (vy b),
                 vz = vzip (fmul K) (vz a) (vz b)\<rparr>"

definition load_ray :: "('p, 'c) kernels \<Rightarrow> sseb \<Rightarrow> ray4 \<Rightarrow> 'c frame" where
  "load_ray K valid r =
     (let rdir0 = rcp_safe3 K (dir r) in
      \<lparr>valid0 = valid, ray_org = org r, ray_dir = dir r, rdir = rdir0,
       org_rdir = mul3 K (org r) rdir0,
       ray_tnear = select valid (tnear r) (splat PInf),
       pre = Precalculations K valid r,
       nearXYZ = \<lparr>ix = select (vle (splat (Fin 0)) (vx rdir0)) (splat 0) (splat 16),
                  iy = select (vle (splat (Fin 0)) (vy rdir0)) (splat 32) (splat 48),
                  iz = select (vle (splat (Fin 0)) (vz rdir0)) (splat 64) (splat 80)\<rparr>\<rparr>)"

definition first_walk :: "('p, 'c) kernels \<Rightarrow> sseb \<Rightarrow> 'p noderef \<Rightarrow> ray4 \<Rightarrow> 'p walk" where
  "first_walk K valid bvh_root r =
     \<lparr>stack = [(bvh_root, ray_tnear (load_ray K valid r)), (InvalidNode, inf_ssef)],
      ray = r,
      ray_tfar = select valid (tfar r) (splat NInf)\<rparr>"

definition intersect :: "('p, 'c) kernels \<Rightarrow> sseb \<Rightarrow> 'p noderef \<Rightarrow> ray4 \<Rightarrow> error + ray4" where
  "intersect K valid_i bvh_root r = intersect_loop K (load_ray K valid_i r) (first_walk K valid_i bvh_root r)"

definition first_walk_occluded :: "('p, 'c) kernels \<Rightarrow> sseb \<Rightarrow> 'p noderef \<Rightarrow> ray4 \<Rightarrow> 'p walk_occluded" where
  "first_walk_occluded K valid bvh_root r =
     \<lparr>stack = [(bvh_root, ray_tnear (load_ray K valid r)), (InvalidNode, inf_ssef)],
      ray = r,
      ray_tfar = select valid (tfar r) (splat NInf),
      terminated = vnot valid\<rparr>"

definition occluded :: "('p, 'c) kernels \<Rightarrow> sseb \<Rightarrow> 'p noderef \<Rightarrow> ray4 \<Rightarrow> error + ray4" where
  "occluded K valid_i bvh_root r =
     (case occluded_loop K (load_ray K valid_i r) (first_walk_occluded K valid_i bvh_root r) of
        Inl e \<Rightarrow> Inl e
      | Inr (ray', terminated') \<Rightarrow>
          Inr (ray'\<lparr>geomID := store4i K (vand valid_i terminated') (geomID ray') (splat 0)\<rparr>))"


section \<open>An instance for evaluation\<close>

text \<open>
  Concrete kernels, used where a statement is evaluated at an input. The arithmetic is
  exact on finite values and follows IEEE at infinity; the indeterminate forms, which IEEE
  answers with NaN, return the left operand. A primitive \<open>(t, k)\<close> is a surface with id
  \<open>k\<close> that every ray meets at distance \<open>t\<close>; it is hit by the lanes of the valid mask
  with \<open>tnear < t < tfar\<close>. The single-ray walker of the instance intersects the lane
  with every primitive below the node. The three-argument store writes the value into the
  lanes of the mask. The instance is a build without AVX2; \<open>test_kernels_avx2\<close> is the
  same with it.
\<close>

fun exact_add :: "fl \<Rightarrow> fl \<Rightarrow> fl" where
  "exact_add (Fin a) (Fin b) = Fin (a + b)"
| "exact_add (Fin a) b = b"
| "exact_add a b = a"

fun exact_sub :: "fl \<Rightarrow> fl \<Rightarrow> fl" where
  "exact_sub (Fin a) (Fin b) = Fin (a - b)"
| "exact_sub (Fin a) PInf = NInf"
| "exact_sub (Fin a) NInf = PInf"
| "exact_sub a b = a"

fun exact_mul :: "fl \<Rightarrow> fl \<Rightarrow> fl" where
  "exact_mul (Fin a) (Fin b) = Fin (a * b)"
| "exact_mul (Fin a) PInf = (if 0 < a then PInf else if a < 0 then NInf else Fin a)"
| "exact_mul (Fin a) NInf = (if 0 < a then NInf else if a < 0 then PInf else Fin a)"
| "exact_mul PInf (Fin b) = (if b < 0 then NInf else PInf)"
| "exact_mul NInf (Fin b) = (if b < 0 then PInf else NInf)"
| "exact_mul PInf PInf = PInf"
| "exact_mul NInf NInf = PInf"
| "exact_mul PInf NInf = NInf"
| "exact_mul NInf PInf = NInf"

fun exact_rcp :: "fl \<Rightarrow> fl" where
  "exact_rcp (Fin a) = (if a = 0 then Fin 1000000000000000000 else Fin (1 / a))"
| "exact_rcp a = Fin 0"

definition hit_mask :: "sseb \<Rightarrow> ray4 \<Rightarrow> rat \<Rightarrow> sseb" where
  "hit_mask valid r t = vand valid (vand (vlt (tnear r) (splat (Fin t))) (vlt (splat (Fin t)) (tfar r)))"

definition plane_intersect :: "sseb \<Rightarrow> unit \<Rightarrow> ray4 \<Rightarrow> (rat \<times> int) list \<Rightarrow> ray4" where
  "plane_intersect valid c r ps = fold (\<lambda>(t, k) r.
      let m = hit_mask valid r t in
      r\<lparr>tfar := select m (splat (Fin t)) (tfar r),
        geomID := select m (splat 0) (geomID r),
        primID := select m (splat k) (primID r)\<rparr>) ps r"

definition plane_occluded :: "sseb \<Rightarrow> unit \<Rightarrow> ray4 \<Rightarrow> (rat \<times> int) list \<Rightarrow> sseb \<times> ray4" where
  "plane_occluded valid c r ps = (fold (\<lambda>(t, k) m. vor m (hit_mask valid r t)) ps (splat False), r)"

fun prims_of :: "'p noderef \<Rightarrow> 'p list" where
  "prims_of (Leaf ps) = ps"
| "prims_of (Node (V4 a b c d) bb) = prims_of a @ prims_of b @ prims_of c @ prims_of d"
| "prims_of (NodeMB (V4 a b c d) bb db) = prims_of a @ prims_of b @ prims_of c @ prims_of d"
| "prims_of n = []"

definition lane_bit :: "nat \<Rightarrow> sseb" where
  "lane_bit i = vset (splat False) i True"

definition test_kernels :: "nat \<Rightarrow> nat \<Rightarrow> (rat \<times> int, unit) kernels" where
  "test_kernels ty cap =
     \<lparr>types = ty, stackSizeChunk = cap, avx2 = False,
      fadd = exact_add, fsub = exact_sub, fmul = exact_mul,
      msub = (\<lambda>a b c. exact_sub (exact_mul a b) c), rcp_safe = exact_rcp,
      Precalculations = (\<lambda>valid r. ()),
      prim_intersect = plane_intersect,
      prim_occluded = plane_occluded,
      intersect1 = (\<lambda>n i c r ro rd rr tn tf nx. plane_intersect (lane_bit i) c r (prims_of n)),
      occluded1 = (\<lambda>n i c r ro rd rr tn tf nx. (vget (fst (plane_occluded (lane_bit i) c r (prims_of n))) i, r)),
      store4i = (\<lambda>m old val. select m val old)\<rparr>"


definition f4 :: "rat \<Rightarrow> rat \<Rightarrow> rat \<Rightarrow> rat \<Rightarrow> ssef" where
  "f4 a b c d = V4 (Fin a) (Fin b) (Fin c) (Fin d)"

definition f3 :: "ssef \<Rightarrow> ssef \<Rightarrow> ssef \<Rightarrow> sse3f" where
  "f3 a b c = \<lparr>vx = a, vy = b, vz = c\<rparr>"

definition box1 :: "rat \<Rightarrow> rat \<Rightarrow> rat \<Rightarrow> rat \<Rightarrow> rat \<Rightarrow> rat \<Rightarrow> aabb4" where
  "box1 lx ly lz ux uy uz =
     \<lparr>lower_x = splat (Fin lx), lower_y = splat (Fin ly), lower_z = splat (Fin lz),
      upper_x = splat (Fin ux), upper_y = splat (Fin uy), upper_z = splat (Fin uz)\<rparr>"

text \<open>
  Four rays along \<open>+z\<close> from \<open>z = -5\<close>, with \<open>tnear = 0\<close> and \<open>tfar = 100\<close>, at
  \<open>(x, y) = (-2, 0), (0, 0), (2, 0), (0, 2/5)\<close>, no hit recorded yet.
\<close>

definition ray0 :: ray4 where
  "ray0 = \<lparr>org = f3 (f4 (-2) 0 2 0) (f4 0 0 0 (2/5)) (f4 (-5) (-5) (-5) (-5)),
           dir = f3 (f4 0 0 0 0) (f4 0 0 0 0) (f4 1 1 1 1),
           tnear = f4 0 0 0 0, tfar = f4 100 100 100 100, time = f4 0 0 0 0,
           ray_mask = splat (-1),
           Ng = f3 (f4 0 0 0 0) (f4 0 0 0 0) (f4 0 0 0 0),
           hit_u = f4 0 0 0 0, hit_v = f4 0 0 0 0,
           geomID = splat (-1), primID = splat (-1), instID = splat (-1)\<rparr>"

text \<open>
  A box that all four rays of \<open>ray0\<close> enter at distance \<open>9/2\<close>, and a node whose only
  child is a leaf behind it, with a primitive at distance 5.
\<close>

definition slab :: aabb4 where
  "slab = box1 (-3) (-3) (-1/2) 3 3 (1/2)"

definition shade :: "(rat \<times> int) noderef" where
  "shade = Node (V4 (Leaf [(5, 7)]) EmptyNode EmptyNode EmptyNode) slab"

text \<open>A node whose only child is a leaf bounded by the unit cube at the origin.\<close>

definition cube :: "(rat \<times> int) noderef" where
  "cube = Node (V4 (Leaf [(9/2, 7)]) EmptyNode EmptyNode EmptyNode)
            (box1 (-1/2) (-1/2) (-1/2) (1/2) (1/2) (1/2))"

section \<open>The slab test, in the words of the specification\<close>

text \<open>
  Per lane and per axis, \<open>t_min = (box_lower - org) * rdir\<close> and
  \<open>t_max = (box_upper - org) * rdir\<close>; \<open>t_near\<close> is the largest of \<open>tnear\<close> and the three
  \<open>min t_min t_max\<close>, \<open>t_far\<close> the smallest of \<open>tfar\<close> and the three
  \<open>max t_min t_max\<close>. \<open>slab_entry\<close> is the largest of the three \<open>min t_min t_max\<close>
  alone. For a motion-blur node each bound is first taken at the lane's time.
\<close>

definition t_axis :: "('p, 'c) kernels \<Rightarrow> fl \<Rightarrow> fl \<Rightarrow> fl \<Rightarrow> fl" where
  "t_axis K box_axis org_axis rdir_axis = fmul K (fsub K box_axis org_axis) rdir_axis"

type_synonym slabs = "(fl \<times> fl) \<times> (fl \<times> fl) \<times> (fl \<times> fl)"

definition spec_t_near :: "fl \<Rightarrow> slabs \<Rightarrow> fl" where
  "spec_t_near tnear0 = (\<lambda>((t_min_x, t_max_x), (t_min_y, t_max_y), (t_min_z, t_max_z)).
     Max {tnear0, min t_min_x t_max_x, min t_min_y t_max_y, min t_min_z t_max_z})"

definition spec_t_far :: "fl \<Rightarrow> slabs \<Rightarrow> fl" where
  "spec_t_far tfar0 = (\<lambda>((t_min_x, t_max_x), (t_min_y, t_max_y), (t_min_z, t_max_z)).
     Min {tfar0, max t_min_x t_max_x, max t_min_y t_max_y, max t_min_z t_max_z})"


definition static_slabs :: "('p, 'c) kernels \<Rightarrow> 'c frame \<Rightarrow> aabb4 \<Rightarrow> nat \<Rightarrow> nat \<Rightarrow> slabs" where
  "static_slabs K F node i l =
     ((t_axis K (vget (lower_x node) i) (vget (vx (ray_org F)) l) (vget (vx (rdir F)) l),
       t_axis K (vget (upper_x node) i) (vget (vx (ray_org F)) l) (vget (vx (rdir F)) l)),
      (t_axis K (vget (lower_y node) i) (vget (vy (ray_org F)) l) (vget (vy (rdir F)) l),
       t_axis K (vget (upper_y node) i) (vget (vy (ray_org F)) l) (vget (vy (rdir F)) l)),
      (t_axis K (vget (lower_z node) i) (vget (vz (ray_org F)) l) (vget (vz (rdir F)) l),
       t_axis K (vget (upper_z node) i) (vget (vz (ray_org F)) l) (vget (vz (rdir F)) l)))"



lemma vget_vmax: "vget (vmax a b) l = max (vget a l) (vget b l)"
  by (simp add: vmax_def vget_vzip)

lemma vget_vmin: "vget (vmin a b) l = min (vget a l) (vget b l)"
  by (simp add: vmin_def vget_vzip)

lemma vget_vle: "vget (vle a b) l = (vget a l \<le> vget b l)"
  by (simp add: vle_def vget_vzip)

lemma vget_vlt: "vget (vlt a b) l = (vget a l < vget b l)"
  by (simp add: vlt_def vget_vzip)

lemma vget_vgt: "vget (vgt a b) l = (vget b l < vget a l)"
  by (simp add: vgt_def vget_vlt)

lemma vget_vand: "vget (vand a b) l = (vget a l \<and> vget b l)"
  by (simp add: vand_def vget_vzip)

lemma vget_vor: "vget (vor a b) l = (vget a l \<or> vget b l)"
  by (simp add: vor_def vget_vzip)

lemma vget_vnot: "vget (vnot a) l = (\<not> vget a l)"
  by (simp add: vnot_def vget_map)

lemma vget_clip: "vget (clip K b o_axis r_axis) l = t_axis K b (vget o_axis l) (vget r_axis l)"
  by (simp add: clip_def t_axis_def vget_vzip vget_splat)


lemma spec_t_near_eq:
  "spec_t_near tn ((a, a'), (b, b'), (c, c')) = max (max (max (min a a') (min b b')) (min c c')) tn"
  by (simp add: spec_t_near_def max.commute max.left_commute max.assoc)

lemma spec_t_far_eq:
  "spec_t_far tf ((a, a'), (b, b'), (c, c')) = min (min (min (max a a') (max b b')) (max c c')) tf"
  by (simp add: spec_t_far_def min.commute min.left_commute min.assoc)


lemma static_hit_lane:
  "\<not> avx2 K \<Longrightarrow> vget (fst (test_node K F tf node i)) l =
     (spec_t_near (vget (ray_tnear F) l) (static_slabs K F node i l)
        \<le> spec_t_far (vget tf l) (static_slabs K F node i l))"
  by (simp add: test_node_def lhit_def lnearP_def lfarP_def Let_def vget_vle vget_vmax vget_vmin
        vget_clip static_slabs_def spec_t_near_eq spec_t_far_eq)








lemma vget_vmaxi: "vget (vmaxi a b) l = maxi (vget a l) (vget b l)"
  by (simp add: vmaxi_def vget_vzip)

lemma vget_vmini: "vget (vmini a b) l = mini (vget a l) (vget b l)"
  by (simp add: vmini_def vget_vzip)









section \<open>C3: the slab test\<close>




section \<open>C4: the child ordering rule\<close>

lemma any_vlt: "any (vlt a b) = (\<exists>l<4. vget a l < vget b l)"
  by (simp add: any_iff vget_vlt)







section \<open>C5: the switch after a pop\<close>



lemma none_vlt: "none (vlt a b) = (\<not> (\<exists>l<4. vget a l < vget b l))"
  by (simp add: none_def any_vlt)








section \<open>What one pass does to the loop variables\<close>

lemma intersect_pass_cases:
  assumes "intersect_pass K F s = Continue s'"
  obtains
    (moved) stk where "s' = s\<lparr>stack := stk\<rparr>"
  | (single) n d stk where "stack s = (n, d) # stk"
      "s' = \<lparr>stack = stk,
             ray = walk_lanes K F n (ray_tfar s) (movemask (vlt d (ray_tfar s))) (ray s),
             ray_tfar = vmin (ray_tfar s)
                (tfar (walk_lanes K F n (ray_tfar s) (movemask (vlt d (ray_tfar s))) (ray s)))\<rparr>"
  | (leaf) stk n d prim where "leaf n = Inr prim"
      "s' = \<lparr>stack = stk,
             ray = prim_intersect K (vgt (ray_tfar s) d) (pre F) (ray s) prim,
             ray_tfar = select (vgt (ray_tfar s) d)
                (tfar (prim_intersect K (vgt (ray_tfar s) d) (pre F) (ray s) prim)) (ray_tfar s)\<rparr>"
proof (cases "stack s")
  case Nil
  with assms show ?thesis by (simp add: intersect_pass_def)
next
  case (Cons e stk)
  obtain n d where e: "e = (n, d)" by (cases e)
  note st = Cons[unfolded e]
  show ?thesis
  proof (cases "n = InvalidNode")
    case True
    with assms st show ?thesis by (simp add: intersect_pass_def)
  next
    case nn: False
    show ?thesis
    proof (cases "none (vlt d (ray_tfar s))")
      case True
      with assms st nn have "s' = s\<lparr>stack := stk\<rparr>" by (simp add: intersect_pass_def)
      then show ?thesis by (rule moved)
    next
      case act: False
      show ?thesis
      proof (cases "popcnt (vlt d (ray_tfar s)) \<le> SWITCH_THRESHOLD")
        case True
        with assms st nn act show ?thesis
          by (intro single[of n d stk]) (simp_all add: intersect_pass_def Let_def)
      next
        case False
        show ?thesis
        proof (cases "traverse K F (ray s) (ray_tfar s) stk n d")
          case (Inl err)
          with assms st nn act False show ?thesis by (simp add: intersect_pass_def)
        next
          case (Inr res)
          show ?thesis
          proof (cases res)
            case (Switch stk')
            with assms st nn act False Inr have "s' = s\<lparr>stack := stk'\<rparr>"
              by (simp add: intersect_pass_def)
            then show ?thesis by (rule moved)
          next
            case (Arrived stk' n' d')
            with assms st nn act False Inr obtain prim where
              "leaf n' = Inr prim"
              "s' = \<lparr>stack = stk',
                 ray = prim_intersect K (vgt (ray_tfar s) d') (pre F) (ray s) prim,
                 ray_tfar = select (vgt (ray_tfar s) d')
                   (tfar (prim_intersect K (vgt (ray_tfar s) d') (pre F) (ray s) prim)) (ray_tfar s)\<rparr>"
              by (auto simp: intersect_pass_def Let_def split: if_splits sum.splits)
            then show ?thesis by (rule leaf)
          qed
        qed
      qed
    qed
  qed
qed

lemma intersect_pass_Break:
  "intersect_pass K F s = Break (Inr r') \<Longrightarrow> r' = ray s"
  by (auto simp: intersect_pass_def Let_def at_sentinel_def
           split: list.splits if_splits sum.splits down.splits)

lemma passes_step:
  assumes "passes body s1 s'" and "body s = Continue s1"
  shows "passes body s s'"
  using assms
proof (induction rule: passes.induct)
  case (first s1)
  then show ?case using passes.first[of body s] passes.later by metis
next
  case (later s1 s' s'')
  then show ?case using passes.later by metis
qed

lemma intersect_loop_last:
  "intersect_loop K F s = Inr r' \<Longrightarrow>
     \<exists>s'. passes (intersect_pass K F) s s' \<and> intersect_pass K F s' = Break (Inr r')"
proof (induction K F s rule: intersect_loop.induct)
  case (1 K F s)
  show ?case
  proof (cases "intersect_pass K F s")
    case (Break res)
    with "1.prems" have "intersect_pass K F s = Break (Inr r')"
      by (simp add: intersect_loop.simps[of K F s])
    then show ?thesis using passes.first by metis
  next
    case (Continue s1)
    with "1.prems" have "intersect_loop K F s1 = Inr r'"
      by (simp add: intersect_loop.simps[of K F s])
    from "1.IH"[OF Continue this] obtain s' where
      s': "passes (intersect_pass K F) s1 s'" "intersect_pass K F s' = Break (Inr r')" by blast
    from passes_step[of "intersect_pass K F", OF s'(1) Continue] s'(2) show ?thesis by blast
  qed
qed

section \<open>C7: the cull bound never increases\<close>

text \<open>
  The contract of the kernels that write the ray in \<open>intersect\<close>: the primitive
  intersector and the single-ray walker lower \<open>tfar\<close> or leave it (a lane that is not
  updated keeps its value).
\<close>

definition lowers_tfar :: "('p, 'c) kernels \<Rightarrow> bool" where
  "lowers_tfar K =
     ((\<forall>valid c r ps l. l < 4 \<longrightarrow> vget (tfar (prim_intersect K valid c r ps)) l \<le> vget (tfar r) l)
    \<and> (\<forall>n i c r ro rd rr tn tf nx l. l < 4 \<longrightarrow>
          vget (tfar (intersect1 K n i c r ro rd rr tn tf nx)) l \<le> vget (tfar r) l))"

text \<open>
  Between passes, a lane's \<open>ray_tfar\<close> is \<open>-\<infinity>\<close> (an inactive lane) or bounds the lane's
  \<open>tfar\<close> field from above.
\<close>

definition tfar_bound :: "'p walk \<Rightarrow> bool" where
  "tfar_bound s = (\<forall>l<4. vget (ray_tfar s) l = NInf \<or> vget (tfar (ray s)) l \<le> vget (ray_tfar s) l)"

lemma walk_lanes_lowers:
  assumes "lowers_tfar K" and "l < 4"
  shows "vget (tfar (walk_lanes K F n tf bits r)) l \<le> vget (tfar r) l"
  unfolding walk_lanes_def
proof (induction bits arbitrary: r)
  case Nil
  then show ?case by simp
next
  case (Cons i bits)
  have "vget (tfar (intersect1 K n i (pre F) r (ray_org F) (ray_dir F) (rdir F) (ray_tnear F) tf (nearXYZ F))) l
          \<le> vget (tfar r) l"
    using assms by (simp add: lowers_tfar_def)
  with Cons.IH[of "intersect1 K n i (pre F) r (ray_org F) (ray_dir F) (rdir F) (ray_tnear F) tf (nearXYZ F)"]
  show ?case by simp
qed

lemma NInf_least: "NInf \<le> (a :: fl)"
  by simp

lemma not_less_NInf: "\<not> (a :: fl) < NInf"
  by (cases a) simp_all

lemma pass_lowers:
  assumes c: "lowers_tfar K" and p: "intersect_pass K F s = Continue s'" and b: "tfar_bound s" and l: "l < 4"
  shows "vget (ray_tfar s') l \<le> vget (ray_tfar s) l"
    and "vget (tfar (ray s')) l \<le> vget (tfar (ray s)) l"
    and "vget (ray_tfar s') l = NInf \<or> vget (tfar (ray s')) l \<le> vget (ray_tfar s') l"
proof -
  from b l have bl: "vget (ray_tfar s) l = NInf \<or> vget (tfar (ray s)) l \<le> vget (ray_tfar s) l"
    by (simp add: tfar_bound_def)
  have "vget (ray_tfar s') l \<le> vget (ray_tfar s) l
      \<and> vget (tfar (ray s')) l \<le> vget (tfar (ray s)) l
      \<and> (vget (ray_tfar s') l = NInf \<or> vget (tfar (ray s')) l \<le> vget (ray_tfar s') l)"
    using p
  proof (cases rule: intersect_pass_cases)
    case (moved stk)
    with bl show ?thesis by simp
  next
    case (single n d stk)
    let ?r = "walk_lanes K F n (ray_tfar s) (movemask (vlt d (ray_tfar s))) (ray s)"
    have w: "vget (tfar ?r) l \<le> vget (tfar (ray s)) l"
      using c l by (rule walk_lanes_lowers)
    with bl show ?thesis
      by (auto simp: single(2) vget_vmin min_def)
  next
    case (leaf stk n d prim)
    let ?r = "prim_intersect K (vgt (ray_tfar s) d) (pre F) (ray s) prim"
    have w: "vget (tfar ?r) l \<le> vget (tfar (ray s)) l"
      using c l by (simp add: lowers_tfar_def)
    show ?thesis
    proof (cases "vget d l < vget (ray_tfar s) l")
      case True
      then have "vget (ray_tfar s) l \<noteq> NInf" using not_less_NInf[of "vget d l"] by auto
      with bl w True show ?thesis
        by (auto simp: leaf(2) vget_select vget_vgt)
    next
      case False
      with bl w show ?thesis
        by (auto simp: leaf(2) vget_select vget_vgt)
    qed
  qed
  then show "vget (ray_tfar s') l \<le> vget (ray_tfar s) l"
    and "vget (tfar (ray s')) l \<le> vget (tfar (ray s)) l"
    and "vget (ray_tfar s') l = NInf \<or> vget (tfar (ray s')) l \<le> vget (ray_tfar s') l"
    by simp_all
qed

lemma first_walk_bound: "tfar_bound (first_walk K valid bvh_root r)"
  by (simp add: tfar_bound_def first_walk_def vget_select vget_splat)

lemma passes_lower:
  assumes c: "lowers_tfar K" and p: "passes (intersect_pass K F) s0 s" and b: "tfar_bound s0"
  shows "tfar_bound s \<and> (\<forall>l<4. vget (ray_tfar s) l \<le> vget (ray_tfar s0) l)
       \<and> (\<forall>l<4. vget (tfar (ray s)) l \<le> vget (tfar (ray s0)) l)"
  using p b
proof (induction rule: passes.induct)
  case (first s)
  then show ?case by simp
next
  case (later s0 s s')
  then have ih: "tfar_bound s" "\<forall>l<4. vget (ray_tfar s) l \<le> vget (ray_tfar s0) l"
    "\<forall>l<4. vget (tfar (ray s)) l \<le> vget (tfar (ray s0)) l" by simp_all
  note pl = pass_lowers[OF c later.hyps(2) ih(1)]
  have "tfar_bound s'" using pl(3) by (simp add: tfar_bound_def)
  moreover have "\<forall>l<4. vget (ray_tfar s') l \<le> vget (ray_tfar s0) l"
    using pl(1) ih(2) by (meson order_trans)
  moreover have "\<forall>l<4. vget (tfar (ray s')) l \<le> vget (tfar (ray s0)) l"
    using pl(2) ih(3) by (meson order_trans)
  ultimately show ?case by simp
qed

text \<open>
  C7. Under the contract, in one call of \<open>intersect\<close> every pass leaves each lane's
  \<open>ray_tfar\<close> at or below its value before the pass, whether the pass ends in the leaf
  update, in the fold after the single-ray walker, or changes the stack only; and the
  \<open>tfar\<close> field that \<open>intersect\<close> returns is at most the field at entry, for every lane.
\<close>

theorem tfar_never_increases:
  assumes "lowers_tfar K"
  shows "(\<forall>s s'. passes (intersect_pass K (load_ray K valid r)) (first_walk K valid bvh_root r) s
             \<and> intersect_pass K (load_ray K valid r) s = Continue s'
           \<longrightarrow> (\<forall>l<4. vget (ray_tfar s') l \<le> vget (ray_tfar s) l))
       \<and> (\<forall>r'. intersect K valid bvh_root r = Inr r' \<longrightarrow> (\<forall>l<4. vget (tfar r') l \<le> vget (tfar r) l))"
proof (intro conjI allI impI)
  fix s s' l
  assume a: "passes (intersect_pass K (load_ray K valid r)) (first_walk K valid bvh_root r) s
             \<and> intersect_pass K (load_ray K valid r) s = Continue s'" and l: "l < (4::nat)"
  from passes_lower[OF assms _ first_walk_bound] a have "tfar_bound s" by blast
  from pass_lowers(1)[OF assms _ this l] a show "vget (ray_tfar s') l \<le> vget (ray_tfar s) l" by blast
next
  fix r' l
  assume a: "intersect K valid bvh_root r = Inr r'" and l: "l < (4::nat)"
  from intersect_loop_last[OF a[unfolded intersect_def]] obtain s where
    s: "passes (intersect_pass K (load_ray K valid r)) (first_walk K valid bvh_root r) s"
       "intersect_pass K (load_ray K valid r) s = Break (Inr r')" by blast
  from intersect_pass_Break[OF s(2)] have "r' = ray s" .
  with passes_lower[OF assms s(1) first_walk_bound] l
  show "vget (tfar r') l \<le> vget (tfar r) l" by (simp add: first_walk_def)
qed


lemma plane_intersect_lowers:
  "vget (tfar (plane_intersect valid c r ps)) l \<le> vget (tfar r) l"
  unfolding plane_intersect_def
proof (induction ps arbitrary: r)
  case Nil
  then show ?case by simp
next
  case (Cons p ps)
  obtain t k where p: "p = (t, k)" by (cases p)
  let ?r = "r\<lparr>tfar := select (hit_mask valid r t) (splat (Fin t)) (tfar r),
              geomID := select (hit_mask valid r t) (splat 0) (geomID r),
              primID := select (hit_mask valid r t) (splat k) (primID r)\<rparr>"
  have "vget (tfar ?r) l \<le> vget (tfar r) l"
    by (auto simp: vget_select hit_mask_def vget_vand vget_vlt vget_splat)
  with Cons.IH[of ?r] show ?case by (simp add: p Let_def)
qed

lemma test_kernels_lower: "lowers_tfar (test_kernels ty cap)"
  by (simp add: lowers_tfar_def test_kernels_def plane_intersect_lowers)

text \<open>
  The four rays at the cube: lanes 1 and 3 end at the hit, \<open>9/2\<close>, below the \<open>100\<close> they
  came with; lanes 0 and 2 keep \<open>100\<close>.
\<close>

theorem tfar_never_increases_witness:
  "lowers_tfar (test_kernels 1 9)
   \<and> map_sum id tfar (intersect (test_kernels 1 9) (splat True) cube ray0) = Inr (f4 100 (9/2) 100 (9/2))
   \<and> Fin (9/2) \<le> vget (tfar ray0) 1 \<and> Fin 100 \<le> vget (tfar ray0) 2"
proof -
  let ?r = "ray0\<lparr>tfar := f4 100 (9/2) 100 (9/2), geomID := V4 (-1) 0 (-1) 0, primID := V4 (-1) 7 (-1) 7\<rparr>"
  have run: "intersect (test_kernels 1 9) (splat True) cube ray0 = Inr ?r"
    by code_simp
  from tfar_never_increases[OF test_kernels_lower, of 1 9 "splat True" ray0 cube] run
  have "\<forall>l<4. vget (tfar ?r) l \<le> vget (tfar ray0) l" by blast
  then have "vget (tfar ?r) 1 \<le> vget (tfar ray0) 1" "vget (tfar ?r) 2 \<le> vget (tfar ray0) 2"
    by simp_all
  then have "Fin (9/2) \<le> vget (tfar ray0) 1" "Fin 100 \<le> vget (tfar ray0) 2"
    by (simp_all add: f4_def)
  with run test_kernels_lower show ?thesis by simp
qed

lemma occluded_pass_cases:
  assumes "occluded_pass K F s = Continue s'"
  obtains
    (moved) stk where "s' = s\<lparr>stack := stk\<rparr>"
  | (single) n d stk r' t' where "stack s = (n, d) # stk"
      "walk_lanes_occluded K F n (ray_tfar s) (movemask (vlt d (ray_tfar s))) (ray s, terminated s) = (r', t')"
      "\<not> all t'"
      "s' = \<lparr>stack = stk, ray = r', ray_tfar = select t' (splat NInf) (ray_tfar s), terminated = t'\<rparr>"
  | (leaf) stk n prim hit r' where "leaf n = Inr prim"
      "prim_occluded K (vnot (terminated s)) (pre F) (ray s) prim = (hit, r')"
      "\<not> all (vor (terminated s) hit)"
      "s' = \<lparr>stack = stk, ray = r',
             ray_tfar = select (vor (terminated s) hit) (splat NInf) (ray_tfar s),
             terminated = vor (terminated s) hit\<rparr>"
proof (cases "stack s")
  case Nil
  with assms show ?thesis by (simp add: occluded_pass_def)
next
  case (Cons e stk)
  obtain n d where e: "e = (n, d)" by (cases e)
  note st = Cons[unfolded e]
  show ?thesis
  proof (cases "n = InvalidNode")
    case True
    with assms st show ?thesis by (simp add: occluded_pass_def)
  next
    case nn: False
    show ?thesis
    proof (cases "none (vlt d (ray_tfar s))")
      case True
      with assms st nn have "s' = s\<lparr>stack := stk\<rparr>" by (simp add: occluded_pass_def)
      then show ?thesis by (rule moved)
    next
      case act: False
      show ?thesis
      proof (cases "popcnt (vlt d (ray_tfar s)) \<le> SWITCH_THRESHOLD")
        case True
        obtain r' t' where w:
          "walk_lanes_occluded K F n (ray_tfar s) (movemask (vlt d (ray_tfar s))) (ray s, terminated s) = (r', t')"
          by (metis surj_pair)
        with assms st nn act True have "\<not> all t'"
          "s' = \<lparr>stack = stk, ray = r', ray_tfar = select t' (splat NInf) (ray_tfar s), terminated = t'\<rparr>"
          by (auto simp: occluded_pass_def Let_def split: if_splits)
        with st w show ?thesis by (intro single[of n d stk r' t'])
      next
        case False
        show ?thesis
        proof (cases "traverse K F (ray s) (ray_tfar s) stk n d")
          case (Inl err)
          with assms st nn act False show ?thesis by (simp add: occluded_pass_def)
        next
          case (Inr res)
          show ?thesis
          proof (cases res)
            case (Switch stk')
            with assms st nn act False Inr have "s' = s\<lparr>stack := stk'\<rparr>"
              by (simp add: occluded_pass_def)
            then show ?thesis by (rule moved)
          next
            case (Arrived stk' n' d')
            with assms st nn act False Inr obtain prim where p: "leaf n' = Inr prim" and ni: "n' \<noteq> InvalidNode"
              by (auto simp: occluded_pass_def Let_def split: if_splits sum.splits)
            obtain hit r' where o: "prim_occluded K (vnot (terminated s)) (pre F) (ray s) prim = (hit, r')"
              by (metis surj_pair)
            with assms st nn act False Inr Arrived p ni have "\<not> all (vor (terminated s) hit)"
              "s' = \<lparr>stack = stk', ray = r',
                 ray_tfar = select (vor (terminated s) hit) (splat NInf) (ray_tfar s),
                 terminated = vor (terminated s) hit\<rparr>"
              by (auto simp: occluded_pass_def Let_def split: if_splits)
            with p o show ?thesis by (intro leaf[of n' prim hit r' stk'])
          qed
        qed
      qed
    qed
  qed
qed

lemma occluded_pass_Break:
  assumes "occluded_pass K F s = Break (Inr (r', t'))"
  obtains
    (kept) "r' = ray s" "t' = terminated s"
  | (single) n d stk where "stack s = (n, d) # stk"
      "walk_lanes_occluded K F n (ray_tfar s) (movemask (vlt d (ray_tfar s))) (ray s, terminated s) = (r', t')"
      "all t'"
  | (leaf) n prim hit where "leaf n = Inr prim"
      "prim_occluded K (vnot (terminated s)) (pre F) (ray s) prim = (hit, r')"
      "t' = vor (terminated s) hit" "all t'"
proof (cases "stack s")
  case Nil
  with assms show ?thesis by (simp add: occluded_pass_def)
next
  case (Cons e stk)
  obtain n d where e: "e = (n, d)" by (cases e)
  note st = Cons[unfolded e]
  show ?thesis
  proof (cases "n = InvalidNode")
    case True
    with assms st have "r' = ray s" "t' = terminated s"
      by (auto simp: occluded_pass_def at_sentinel_def split: if_splits)
    then show ?thesis by (rule kept)
  next
    case nn: False
    show ?thesis
    proof (cases "none (vlt d (ray_tfar s))")
      case True
      with assms st nn show ?thesis by (simp add: occluded_pass_def)
    next
      case act: False
      show ?thesis
      proof (cases "popcnt (vlt d (ray_tfar s)) \<le> SWITCH_THRESHOLD")
        case True
        obtain r1 t1 where w:
          "walk_lanes_occluded K F n (ray_tfar s) (movemask (vlt d (ray_tfar s))) (ray s, terminated s) = (r1, t1)"
          by (metis surj_pair)
        with assms st nn act True have "all t1" "r' = r1" "t' = t1"
          by (auto simp: occluded_pass_def Let_def split: if_splits)
        with st w show ?thesis by (intro single[of n d stk]) simp_all
      next
        case False
        show ?thesis
        proof (cases "traverse K F (ray s) (ray_tfar s) stk n d")
          case (Inl err)
          with assms st nn act False show ?thesis by (simp add: occluded_pass_def)
        next
          case (Inr res)
          show ?thesis
          proof (cases res)
            case (Switch stk')
            with assms st nn act False Inr show ?thesis by (simp add: occluded_pass_def)
          next
            case (Arrived stk' n' d')
            show ?thesis
            proof (cases "n' = InvalidNode")
              case True
              with assms st nn act False Inr Arrived have "r' = ray s" "t' = terminated s"
                by (auto simp: occluded_pass_def at_sentinel_def split: if_splits)
              then show ?thesis by (rule kept)
            next
              case ni: False
              with assms st nn act False Inr Arrived obtain prim where p: "leaf n' = Inr prim"
                by (auto simp: occluded_pass_def Let_def split: if_splits sum.splits)
              obtain hit r1 where o: "prim_occluded K (vnot (terminated s)) (pre F) (ray s) prim = (hit, r1)"
                by (metis surj_pair)
              with assms st nn act False Inr Arrived p ni have "all (vor (terminated s) hit)"
                "r' = r1" "t' = vor (terminated s) hit"
                by (auto simp: occluded_pass_def Let_def split: if_splits)
              with p o show ?thesis by (intro leaf[of n' prim hit]) simp_all
            qed
          qed
        qed
      qed
    qed
  qed
qed

lemma occluded_loop_last:
  "occluded_loop K F s = Inr res \<Longrightarrow>
     \<exists>s'. passes (occluded_pass K F) s s' \<and> occluded_pass K F s' = Break (Inr res)"
proof (induction K F s rule: occluded_loop.induct)
  case (1 K F s)
  show ?case
  proof (cases "occluded_pass K F s")
    case (Break x)
    with "1.prems" have "occluded_pass K F s = Break (Inr res)"
      by (simp add: occluded_loop.simps[of K F s])
    then show ?thesis using passes.first by metis
  next
    case (Continue s1)
    with "1.prems" have "occluded_loop K F s1 = Inr res"
      by (simp add: occluded_loop.simps[of K F s])
    from "1.IH"[OF Continue this] obtain s' where
      s': "passes (occluded_pass K F) s1 s'" "occluded_pass K F s' = Break (Inr res)" by blast
    from passes_step[of "occluded_pass K F", OF s'(1) Continue] s'(2) show ?thesis by blast
  qed
qed

lemma vget_vset: "i < 4 \<Longrightarrow> l < 4 \<Longrightarrow> vget (vset v i e) l = (if l = i then e else vget v l)"
  by (cases v) (auto simp: lt4)

lemma walk_lanes_occluded_grows:
  assumes "walk_lanes_occluded K F n tf bits (r, t) = (r', t')" and "set bits \<subseteq> {..<4}" and "l < 4"
      and "vget t l"
  shows "vget t' l"
  using assms unfolding walk_lanes_occluded_def
proof (induction bits arbitrary: r t)
  case Nil
  then show ?case by simp
next
  case (Cons i bits)
  obtain hit r1 where o:
    "occluded1 K n i (pre F) r (ray_org F) (ray_dir F) (rdir F) (ray_tnear F) tf (nearXYZ F) = (hit, r1)"
    by (metis surj_pair)
  let ?t1 = "if hit then vset t i True else t"
  have "vget ?t1 l" using Cons.prems(2,3,4) by (simp add: vget_vset)
  moreover from Cons.prems(1) o have
    "fold (\<lambda>i (r, t). case occluded1 K n i (pre F) r (ray_org F) (ray_dir F) (rdir F) (ray_tnear F) tf (nearXYZ F) of
             (hit, r') \<Rightarrow> (r', if hit then vset t i True else t)) bits (r1, ?t1) = (r', t')"
    by simp
  ultimately show ?case using Cons.IH[of r1 ?t1] Cons.prems(2,3) by simp
qed

lemma movemask_lt4: "set (movemask m) \<subseteq> {..<4}"
  using movemask_iff by auto


section \<open>C6: termination in \<open>occluded\<close>\<close>

lemma occluded_pass_grows:
  assumes p: "occluded_pass K F s = Continue s'" and l: "l < 4" and t: "vget (terminated s) l"
  shows "vget (terminated s') l"
  using p
proof (cases rule: occluded_pass_cases)
  case (moved stk)
  with t show ?thesis by simp
next
  case (single n d stk r' t')
  from walk_lanes_occluded_grows[OF single(2) movemask_lt4 l t] single(4) show ?thesis by simp
next
  case (leaf stk n prim hit r')
  with t show ?thesis by (simp add: vget_vor)
qed

definition terminated_culled :: "'p walk_occluded \<Rightarrow> bool" where
  "terminated_culled s = (\<forall>l<4. vget (terminated s) l \<longrightarrow> vget (ray_tfar s) l = NInf)"

lemma occluded_pass_culled:
  assumes p: "occluded_pass K F s = Continue s'" and c: "terminated_culled s"
  shows "terminated_culled s'"
  using p
proof (cases rule: occluded_pass_cases)
  case (moved stk)
  with c show ?thesis by (simp add: terminated_culled_def)
next
  case (single n d stk r' t')
  then show ?thesis by (simp add: terminated_culled_def vget_select vget_splat)
next
  case (leaf stk n prim hit r')
  then show ?thesis by (simp add: terminated_culled_def vget_select vget_splat)
qed

lemma first_walk_occluded_culled: "terminated_culled (first_walk_occluded K valid bvh_root r)"
  by (simp add: terminated_culled_def first_walk_occluded_def vget_select vget_splat vget_vnot)

lemma occluded_passes_inv:
  assumes "passes (occluded_pass K F) s0 s" and "terminated_culled s0"
  shows "terminated_culled s \<and> (\<forall>l<4. vget (terminated s0) l \<longrightarrow> vget (terminated s) l)"
  using assms
proof (induction rule: passes.induct)
  case (first s)
  then show ?case by simp
next
  case (later s0 s s')
  then show ?case using occluded_pass_culled occluded_pass_grows by metis
qed

lemma popcnt_le3: "l < 4 \<Longrightarrow> \<not> vget m l \<Longrightarrow> popcnt m \<le> 3"
  by (cases m) (auto simp: popcnt_def movemask_def lt4)

lemma leaf_fold:
  assumes "stack s = (n, d) # stk" and "n \<noteq> InvalidNode" and "3 < popcnt (vlt d (ray_tfar s))"
      and "traverse K F (ray s) (ray_tfar s) stk n d = Inr (Arrived stk' n' d')"
      and "n' \<noteq> InvalidNode" and "leaf n' = Inr prim"
      and "prim_occluded K (vnot (terminated s)) (pre F) (ray s) prim = (hit, r')"
  shows "occluded_pass K F s =
           (if all (vor (terminated s) hit) then Break (Inr (r', vor (terminated s) hit))
            else Continue \<lparr>stack = stk', ray = r',
                            ray_tfar = select (vor (terminated s) hit) (splat NInf) (ray_tfar s),
                            terminated = vor (terminated s) hit\<rparr>)"
proof -
  from assms(3) have "\<not> none (vlt d (ray_tfar s))" "\<not> popcnt (vlt d (ray_tfar s)) \<le> SWITCH_THRESHOLD"
    using popcnt_0[of "vlt d (ray_tfar s)"] by (auto simp: SWITCH_THRESHOLD_def)
  with assms show ?thesis by (simp add: occluded_pass_def Let_def)
qed

text \<open>
  The three-argument \<open>store4i(mask, ptr, value)\<close> is declared in the SIMD headers, which
  are not among the sources. The contract under which it is used: it writes the value into
  the lanes of the mask and leaves the other lanes as they are.
\<close>

definition masked_store :: "('p, 'c) kernels \<Rightarrow> bool" where
  "masked_store K = (\<forall>m old val. \<forall>l<4.
     vget (store4i K m old val) l = (if vget m l then vget val l else vget old l))"

lemma occluded_loop_reach:
  "passes (occluded_pass K F) s0 s \<Longrightarrow> occluded_loop K F s0 = occluded_loop K F s"
proof (induction rule: passes.induct)
  case (first s)
  show ?case by (rule refl)
next
  case (later s0 s' s'')
  from later.hyps(2) have "occluded_loop K F s' = occluded_loop K F s''"
    by (simp add: occluded_loop.simps[of K F s'])
  with later.IH show ?case by (rule trans)
qed

lemma occluded_exit:
  assumes "passes (occluded_pass K (load_ray K valid r)) (first_walk_occluded K valid bvh_root r) s"
      and "occluded_pass K (load_ray K valid r) s = Break (Inr (r', t))"
  shows "occluded K valid bvh_root r = Inr (r'\<lparr>geomID := store4i K (vand valid t) (geomID r') (splat 0)\<rparr>)"
proof -
  from assms(2) have "occluded_loop K (load_ray K valid r) s = Inr (r', t)"
    by (simp add: occluded_loop.simps[of K "load_ray K valid r" s])
  with occluded_loop_reach[OF assms(1)] show ?thesis by (simp add: occluded_def)
qed

lemma store_lane:
  assumes "masked_store K" and "l < 4"
  shows "vget (geomID (r'\<lparr>geomID := store4i K (vand valid t) (geomID r') (splat 0)\<rparr>)) l
           = (if vget valid l \<and> vget t l then 0 else vget (geomID r') l)"
  using assms by (simp add: masked_store_def vget_vand vget_splat)

text \<open>
  C6. In one call of \<open>occluded\<close>, with \<open>terminated\<close> starting as the complement of the
  valid mask: a lane once terminated stays terminated, and after every pass its
  \<open>ray_tfar\<close> is \<open>-\<infinity>\<close>, so that it is active at no pop and with it the packet walk, which
  needs four active lanes, tests no box. At a leaf the hit mask returned by the primitive
  intersector is or-ed into \<open>terminated\<close>; the loop is left at once if all lanes are
  terminated, and goes on with \<open>ray_tfar = -\<infinity>\<close> in the terminated lanes otherwise. When
  the loop is left with the ray \<open>r'\<close> and the mask \<open>t\<close>, \<open>occluded\<close> returns \<open>r'\<close> with
  \<open>geomID\<close> stored under the mask \<open>valid & t\<close>: with a store that writes the lanes of its
  mask and no other, \<open>geomID\<close> is 0 in the lanes that are valid and terminated and is left
  as it is in the others.
\<close>

theorem any_hit_termination:
  assumes "masked_store K"
  shows "(\<forall>s. passes (occluded_pass K (load_ray K valid r)) (first_walk_occluded K valid bvh_root r) s \<longrightarrow>
       (\<forall>l<4. \<not> vget valid l \<longrightarrow> vget (terminated s) l)
     \<and> (\<forall>l<4. vget (terminated s) l \<longrightarrow>
           vget (ray_tfar s) l = NInf
         \<and> (\<forall>d. \<not> vget (vlt d (ray_tfar s)) l \<and> popcnt (vlt d (ray_tfar s)) \<le> SWITCH_THRESHOLD))
     \<and> (\<forall>s'. occluded_pass K (load_ray K valid r) s = Continue s' \<longrightarrow>
           (\<forall>l<4. vget (terminated s) l \<longrightarrow> vget (terminated s') l))
     \<and> (\<forall>r' t. occluded_pass K (load_ray K valid r) s = Break (Inr (r', t)) \<longrightarrow>
           occluded K valid bvh_root r
             = Inr (r'\<lparr>geomID := store4i K (vand valid t) (geomID r') (splat 0)\<rparr>)
         \<and> (\<forall>l<4. vget (geomID (r'\<lparr>geomID := store4i K (vand valid t) (geomID r') (splat 0)\<rparr>)) l
                    = (if vget valid l \<and> vget t l then 0 else vget (geomID r') l))))
   \<and> (\<forall>s n d stk stk' n' d' prim hit r'.
         stack s = (n, d) # stk \<and> n \<noteq> InvalidNode \<and> 3 < popcnt (vlt d (ray_tfar s))
       \<and> traverse K (load_ray K valid r) (ray s) (ray_tfar s) stk n d = Inr (Arrived stk' n' d')
       \<and> n' \<noteq> InvalidNode \<and> leaf n' = Inr prim
       \<and> prim_occluded K (vnot (terminated s)) (pre (load_ray K valid r)) (ray s) prim = (hit, r') \<longrightarrow>
         occluded_pass K (load_ray K valid r) s =
           (if all (vor (terminated s) hit) then Break (Inr (r', vor (terminated s) hit))
            else Continue \<lparr>stack = stk', ray = r',
                            ray_tfar = select (vor (terminated s) hit) (splat NInf) (ray_tfar s),
                            terminated = vor (terminated s) hit\<rparr>)
       \<and> (\<forall>l<4. vget (vor (terminated s) hit) l = (vget (terminated s) l \<or> vget hit l)))
   \<and> (\<forall>res. occluded K valid bvh_root r = Inr res \<longrightarrow>
         (\<exists>s r' t. passes (occluded_pass K (load_ray K valid r)) (first_walk_occluded K valid bvh_root r) s
            \<and> occluded_pass K (load_ray K valid r) s = Break (Inr (r', t))
            \<and> res = r'\<lparr>geomID := store4i K (vand valid t) (geomID r') (splat 0)\<rparr>
            \<and> (\<forall>l<4. vget (geomID res) l = (if vget valid l \<and> vget t l then 0 else vget (geomID r') l))))"
proof (intro conjI allI impI)
  fix s l
  assume p: "passes (occluded_pass K (load_ray K valid r)) (first_walk_occluded K valid bvh_root r) s"
    and l: "l < (4::nat)"
  note inv = occluded_passes_inv[OF p first_walk_occluded_culled]
  {
    assume "\<not> vget valid l"
    then have "vget (terminated (first_walk_occluded K valid bvh_root r)) l"
      by (simp add: first_walk_occluded_def vget_vnot)
    with inv l show "vget (terminated s) l" by blast
  }
  {
    assume t: "vget (terminated s) l"
    with inv l show n: "vget (ray_tfar s) l = NInf" by (simp add: terminated_culled_def)
    fix d
    show a: "\<not> vget (vlt d (ray_tfar s)) l" using n not_less_NInf by (simp add: vget_vlt)
    show "popcnt (vlt d (ray_tfar s)) \<le> SWITCH_THRESHOLD"
      using popcnt_le3[OF l a] by (simp add: SWITCH_THRESHOLD_def)
  }
  fix s' l
  assume "occluded_pass K (load_ray K valid r) s = Continue s'" "l < (4::nat)" "vget (terminated s) l"
  then show "vget (terminated s') l" by (rule occluded_pass_grows)
next
  fix s r' t
  assume p: "passes (occluded_pass K (load_ray K valid r)) (first_walk_occluded K valid bvh_root r) s"
    and b: "occluded_pass K (load_ray K valid r) s = Break (Inr (r', t))"
  show "occluded K valid bvh_root r
          = Inr (r'\<lparr>geomID := store4i K (vand valid t) (geomID r') (splat 0)\<rparr>)"
    by (rule occluded_exit[OF p b])
  fix l
  assume "l < (4::nat)"
  with assms show "vget (geomID (r'\<lparr>geomID := store4i K (vand valid t) (geomID r') (splat 0)\<rparr>)) l
                    = (if vget valid l \<and> vget t l then 0 else vget (geomID r') l)"
    by (rule store_lane)
next
  fix s :: "'a walk_occluded" and n d stk stk' n' d' prim hit r'
  assume a: "stack s = (n, d) # stk \<and> n \<noteq> InvalidNode \<and> 3 < popcnt (vlt d (ray_tfar s))
       \<and> traverse K (load_ray K valid r) (ray s) (ray_tfar s) stk n d = Inr (Arrived stk' n' d')
       \<and> n' \<noteq> InvalidNode \<and> leaf n' = Inr prim
       \<and> prim_occluded K (vnot (terminated s)) (pre (load_ray K valid r)) (ray s) prim = (hit, r')"
  then show "occluded_pass K (load_ray K valid r) s =
           (if all (vor (terminated s) hit) then Break (Inr (r', vor (terminated s) hit))
            else Continue \<lparr>stack = stk', ray = r',
                            ray_tfar = select (vor (terminated s) hit) (splat NInf) (ray_tfar s),
                            terminated = vor (terminated s) hit\<rparr>)"
    using leaf_fold[of s n d stk K "load_ray K valid r" stk' n' d' prim hit r'] by blast
  fix l :: nat
  show "vget (vor (terminated s) hit) l = (vget (terminated s) l \<or> vget hit l)"
    by (simp add: vget_vor)
next
  fix res
  assume a: "occluded K valid bvh_root r = Inr res"
  then obtain r' t where
    lp: "occluded_loop K (load_ray K valid r) (first_walk_occluded K valid bvh_root r) = Inr (r', t)"
    and res: "res = r'\<lparr>geomID := store4i K (vand valid t) (geomID r') (splat 0)\<rparr>"
    by (auto simp: occluded_def split: sum.splits)
  from occluded_loop_last[OF lp] obtain s where
    s: "passes (occluded_pass K (load_ray K valid r)) (first_walk_occluded K valid bvh_root r) s"
    "occluded_pass K (load_ray K valid r) s = Break (Inr (r', t))" by blast
  have "\<forall>l<4. vget (geomID res) l = (if vget valid l \<and> vget t l then 0 else vget (geomID r') l)"
    unfolding res using store_lane[OF assms] by blast
  with s res show "\<exists>s r' t. passes (occluded_pass K (load_ray K valid r)) (first_walk_occluded K valid bvh_root r) s
            \<and> occluded_pass K (load_ray K valid r) s = Break (Inr (r', t))
            \<and> res = r'\<lparr>geomID := store4i K (vand valid t) (geomID r') (splat 0)\<rparr>
            \<and> (\<forall>l<4. vget (geomID res) l = (if vget valid l \<and> vget t l then 0 else vget (geomID r') l))"
    by blast
qed

lemma test_kernels_store: "masked_store (test_kernels ty cap)"
  by (simp add: masked_store_def test_kernels_def vget_select)

text \<open>
  The four rays at \<open>shade\<close>: all lanes enter the box, the packet walk arrives at the leaf,
  its primitive occludes all four lanes, the loop is left in that pass, and the hit
  indicator is 0 in every lane.
\<close>

theorem any_hit_termination_witness:
  "masked_store (test_kernels 1 9)
   \<and> occluded_pass (test_kernels 1 9) (load_ray (test_kernels 1 9) (splat True) ray0)
       (first_walk_occluded (test_kernels 1 9) (splat True) shade ray0)
     = Break (Inr (ray0, splat True))
   \<and> occluded (test_kernels 1 9) (splat True) shade ray0
     = Inr (ray0\<lparr>geomID := store4i (test_kernels 1 9) (vand (splat True) (splat True)) (geomID ray0) (splat 0)\<rparr>)
   \<and> vget (geomID (ray0\<lparr>geomID := store4i (test_kernels 1 9) (vand (splat True) (splat True)) (geomID ray0) (splat 0)\<rparr>)) 2
     = 0
   \<and> vget (geomID ray0) 2 = - 1"
proof -
  let ?K = "test_kernels 1 9"
  let ?F = "load_ray ?K (splat True) ray0"
  let ?s = "first_walk_occluded ?K (splat True) shade ray0"
  note t = any_hit_termination[OF test_kernels_store, of 1 9 "splat True" ray0 shade]
  have p: "passes (occluded_pass ?K ?F) ?s ?s" by (rule passes.first)
  have h1: "stack ?s = (shade, ray_tnear ?F) # [(InvalidNode, inf_ssef)]"
    by (simp add: first_walk_occluded_def)
  have h2: "shade \<noteq> InvalidNode" by (simp add: shade_def)
  have h3: "3 < popcnt (vlt (ray_tnear ?F) (ray_tfar ?s))" by code_simp
  have h4: "traverse ?K ?F (ray ?s) (ray_tfar ?s) [(InvalidNode, inf_ssef)] shade (ray_tnear ?F)
              = Inr (Arrived [(InvalidNode, inf_ssef)] (Leaf [(5, 7)]) (f4 (9/2) (9/2) (9/2) (9/2)))"
    by code_simp
  have h5: "Leaf [(5, 7)] \<noteq> (InvalidNode :: (rat \<times> int) noderef)" by simp
  have h6: "leaf (Leaf [(5 :: rat, 7 :: int)]) = Inr [(5, 7)]" by simp
  have h7: "prim_occluded ?K (vnot (terminated ?s)) (pre ?F) (ray ?s) [(5, 7)] = (splat True, ray0)"
    by code_simp
  have h8: "all (vor (terminated ?s) (splat True))" by code_simp
  have h9: "vor (terminated ?s) (splat True) = splat True" by code_simp
  have h10: "all (splat True)" by code_simp
  have h: "stack ?s = (shade, ray_tnear ?F) # [(InvalidNode, inf_ssef)] \<and> shade \<noteq> InvalidNode
       \<and> 3 < popcnt (vlt (ray_tnear ?F) (ray_tfar ?s))
       \<and> traverse ?K ?F (ray ?s) (ray_tfar ?s) [(InvalidNode, inf_ssef)] shade (ray_tnear ?F)
            = Inr (Arrived [(InvalidNode, inf_ssef)] (Leaf [(5, 7)]) (f4 (9/2) (9/2) (9/2) (9/2)))
       \<and> Leaf [(5, 7)] \<noteq> (InvalidNode :: (rat \<times> int) noderef)
       \<and> leaf (Leaf [(5 :: rat, 7 :: int)]) = Inr [(5, 7)]
       \<and> prim_occluded ?K (vnot (terminated ?s)) (pre ?F) (ray ?s) [(5, 7)] = (splat True, ray0)"
    by (intro conjI h1 h2 h3 h4 h5 h6 h7)
  note fold = t[THEN conjunct2, THEN conjunct1, rule_format, OF h, THEN conjunct1]
  from fold have b: "occluded_pass ?K ?F ?s = Break (Inr (ray0, splat True))"
    by (simp only: h9 h10 if_True)
  note exit = t[THEN conjunct1, rule_format, OF p, THEN conjunct2, THEN conjunct2, THEN conjunct2,
      rule_format, OF b]
  have e: "occluded ?K (splat True) shade ray0
     = Inr (ray0\<lparr>geomID := store4i ?K (vand (splat True) (splat True)) (geomID ray0) (splat 0)\<rparr>)"
    by (rule exit[THEN conjunct1])
  have l2: "(2::nat) < 4" by simp
  have v: "vget (splat True) (2::nat) \<and> vget (splat True) (2::nat)" by (simp add: vget_splat)
  have "vget (geomID (ray0\<lparr>geomID := store4i ?K (vand (splat True) (splat True)) (geomID ray0) (splat 0)\<rparr>)) 2
          = (if vget (splat True) (2::nat) \<and> vget (splat True) (2::nat) then 0 else vget (geomID ray0) 2)"
    by (rule exit[THEN conjunct2, rule_format, OF l2])
  then have g: "vget (geomID (ray0\<lparr>geomID := store4i ?K (vand (splat True) (splat True)) (geomID ray0) (splat 0)\<rparr>)) 2 = 0"
    by (simp add: vget_splat)
  have o: "vget (geomID ray0) 2 = - 1" by code_simp
  show ?thesis by (intro conjI test_kernels_store b e g o)
qed

section \<open>C8: lanes that are inactive at entry\<close>

text \<open>Everything the packet holds of lane \<open>l\<close>.\<close>

definition ray_lane :: "ray4 \<Rightarrow> nat \<Rightarrow> fl list \<times> int list" where
  "ray_lane r l =
     ([vget (vx (org r)) l, vget (vy (org r)) l, vget (vz (org r)) l,
       vget (vx (dir r)) l, vget (vy (dir r)) l, vget (vz (dir r)) l,
       vget (tnear r) l, vget (tfar r) l, vget (time r) l,
       vget (vx (Ng r)) l, vget (vy (Ng r)) l, vget (vz (Ng r)) l,
       vget (hit_u r) l, vget (hit_v r) l],
      [vget (ray_mask r) l, vget (geomID r) l, vget (primID r) l, vget (instID r) l])"

text \<open>
  The contract of the kernels that write: a primitive intersector only updates lanes of
  its valid mask, the single-ray walker for lane \<open>i\<close> only updates lane \<open>i\<close>, and the
  three-argument \<open>store4i\<close> leaves the lanes outside its mask as they are.
\<close>

definition writes_own_lanes :: "('p, 'c) kernels \<Rightarrow> bool" where
  "writes_own_lanes K =
     ((\<forall>m c r ps l. l < 4 \<and> \<not> vget m l \<longrightarrow> ray_lane (prim_intersect K m c r ps) l = ray_lane r l)
    \<and> (\<forall>m c r ps l. l < 4 \<and> \<not> vget m l \<longrightarrow> ray_lane (snd (prim_occluded K m c r ps)) l = ray_lane r l)
    \<and> (\<forall>n i c r ro rd rr tn tf nx l. l < 4 \<and> i < 4 \<and> l \<noteq> i \<longrightarrow>
          ray_lane (intersect1 K n i c r ro rd rr tn tf nx) l = ray_lane r l)
    \<and> (\<forall>n i c r ro rd rr tn tf nx l. l < 4 \<and> i < 4 \<and> l \<noteq> i \<longrightarrow>
          ray_lane (snd (occluded1 K n i c r ro rd rr tn tf nx)) l = ray_lane r l)
    \<and> (\<forall>m old val l. l < 4 \<and> \<not> vget m l \<longrightarrow> vget (store4i K m old val) l = vget old l))"

lemma own_prim_intersect:
  "writes_own_lanes K \<Longrightarrow> l < 4 \<Longrightarrow> \<not> vget m l \<Longrightarrow>
     ray_lane (prim_intersect K m c r ps) l = ray_lane r l"
  by (simp add: writes_own_lanes_def)

lemma own_prim_occluded:
  "writes_own_lanes K \<Longrightarrow> l < 4 \<Longrightarrow> \<not> vget m l \<Longrightarrow>
     ray_lane (snd (prim_occluded K m c r ps)) l = ray_lane r l"
  by (simp add: writes_own_lanes_def)

lemma own_intersect1:
  "writes_own_lanes K \<Longrightarrow> l < 4 \<Longrightarrow> i < 4 \<Longrightarrow> l \<noteq> i \<Longrightarrow>
     ray_lane (intersect1 K n i c r ro rd rr tn tf nx) l = ray_lane r l"
  by (simp add: writes_own_lanes_def)

lemma own_occluded1:
  "writes_own_lanes K \<Longrightarrow> l < 4 \<Longrightarrow> i < 4 \<Longrightarrow> l \<noteq> i \<Longrightarrow>
     ray_lane (snd (occluded1 K n i c r ro rd rr tn tf nx)) l = ray_lane r l"
  by (simp add: writes_own_lanes_def)

lemma own_store4i:
  "writes_own_lanes K \<Longrightarrow> l < 4 \<Longrightarrow> \<not> vget m l \<Longrightarrow> vget (store4i K m old val) l = vget old l"
  by (simp add: writes_own_lanes_def)

lemma walk_lanes_frame:
  assumes "writes_own_lanes K" and "l < 4" and "l \<notin> set bits" and "set bits \<subseteq> {..<4}"
  shows "ray_lane (walk_lanes K F n tf bits r) l = ray_lane r l"
  using assms(3,4) unfolding walk_lanes_def
proof (induction bits arbitrary: r)
  case Nil
  then show ?case by simp
next
  case (Cons i bits)
  let ?r = "intersect1 K n i (pre F) r (ray_org F) (ray_dir F) (rdir F) (ray_tnear F) tf (nearXYZ F)"
  from Cons.prems have "i < 4" "l \<noteq> i" by auto
  with assms(1,2) have "ray_lane ?r l = ray_lane r l"
    by (simp add: own_intersect1)
  with Cons.IH[of ?r] Cons.prems show ?case by simp
qed

lemma walk_lanes_occluded_frame:
  assumes "writes_own_lanes K" and "l < 4" and "l \<notin> set bits" and "set bits \<subseteq> {..<4}"
      and "walk_lanes_occluded K F n tf bits (r, t) = (r', t')"
  shows "ray_lane r' l = ray_lane r l"
  using assms(3,4,5) unfolding walk_lanes_occluded_def
proof (induction bits arbitrary: r t)
  case Nil
  then show ?case by simp
next
  case (Cons i bits)
  obtain hit r1 where o:
    "occluded1 K n i (pre F) r (ray_org F) (ray_dir F) (rdir F) (ray_tnear F) tf (nearXYZ F) = (hit, r1)"
    by (metis surj_pair)
  from Cons.prems have "i < 4" "l \<noteq> i" by auto
  with assms(1,2) have
    "ray_lane (snd (occluded1 K n i (pre F) r (ray_org F) (ray_dir F) (rdir F) (ray_tnear F) tf (nearXYZ F))) l
       = ray_lane r l"
    by (simp add: own_occluded1)
  with o have f: "ray_lane r1 l = ray_lane r l" by simp
  from Cons.prems(3) o have
    "fold (\<lambda>i (r, t). case occluded1 K n i (pre F) r (ray_org F) (ray_dir F) (rdir F) (ray_tnear F) tf (nearXYZ F) of
             (hit, r') \<Rightarrow> (r', if hit then vset t i True else t)) bits (r1, if hit then vset t i True else t)
       = (r', t')"
    by simp
  from Cons.IH[OF _ _ this] Cons.prems(1,2) f show ?case by simp
qed

lemma not_active: "vget tf l = NInf \<Longrightarrow> l \<notin> set (movemask (vlt d tf))"
  using not_less_NInf by (simp add: movemask_iff vget_vlt)

definition lane_idle :: "ray4 \<Rightarrow> nat \<Rightarrow> 'p walk \<Rightarrow> bool" where
  "lane_idle r l s = (vget (ray_tfar s) l = NInf \<and> ray_lane (ray s) l = ray_lane r l)"

lemma intersect_pass_idle:
  assumes c: "writes_own_lanes K" and l: "l < 4" and p: "intersect_pass K F s = Continue s'"
      and i: "lane_idle r l s"
  shows "lane_idle r l s'"
  using p
proof (cases rule: intersect_pass_cases)
  case (moved stk)
  with i show ?thesis by (simp add: lane_idle_def)
next
  case (single n d stk)
  from i have tf: "vget (ray_tfar s) l = NInf" by (simp add: lane_idle_def)
  from walk_lanes_frame[OF c l not_active[OF tf] movemask_lt4] i
  show ?thesis by (simp add: single(2) lane_idle_def vget_vmin)
next
  case (leaf stk n d prim)
  from i have tf: "vget (ray_tfar s) l = NInf" by (simp add: lane_idle_def)
  then have nv: "\<not> vget (vgt (ray_tfar s) d) l" using not_less_NInf by (simp add: vget_vgt)
  with c l have "ray_lane (prim_intersect K (vgt (ray_tfar s) d) (pre F) (ray s) prim) l = ray_lane (ray s) l"
    by (simp add: own_prim_intersect)
  with i nv show ?thesis by (simp add: leaf(2) lane_idle_def vget_select)
qed

lemma intersect_passes_idle:
  assumes "writes_own_lanes K" and "l < 4" and "passes (intersect_pass K F) s0 s" and "lane_idle r l s0"
  shows "lane_idle r l s"
  using assms(3,4)
proof (induction rule: passes.induct)
  case (first s)
  then show ?case by simp
next
  case (later s0 s s')
  then show ?case using intersect_pass_idle[OF assms(1,2)] by blast
qed

definition lane_idle_occluded :: "ray4 \<Rightarrow> nat \<Rightarrow> 'p walk_occluded \<Rightarrow> bool" where
  "lane_idle_occluded r l s =
     (vget (ray_tfar s) l = NInf \<and> vget (terminated s) l \<and> ray_lane (ray s) l = ray_lane r l)"

lemma occluded_pass_idle:
  assumes c: "writes_own_lanes K" and l: "l < 4" and p: "occluded_pass K F s = Continue s'"
      and i: "lane_idle_occluded r l s"
  shows "lane_idle_occluded r l s'"
proof -
  from i have tf: "vget (ray_tfar s) l = NInf" and t: "vget (terminated s) l"
    and f: "ray_lane (ray s) l = ray_lane r l" by (simp_all add: lane_idle_occluded_def)
  from occluded_pass_grows[OF p l t] have t': "vget (terminated s') l" .
  from p show ?thesis
  proof (cases rule: occluded_pass_cases)
    case (moved stk)
    with i show ?thesis by (simp add: lane_idle_occluded_def)
  next
    case (single n d stk r' t'')
    from walk_lanes_occluded_frame[OF c l not_active[OF tf] movemask_lt4 single(2)] f t'
    show ?thesis by (simp add: single(4) lane_idle_occluded_def vget_select vget_splat)
  next
    case (leaf stk n prim hit r')
    from t have "\<not> vget (vnot (terminated s)) l" by (simp add: vget_vnot)
    with c l have "ray_lane (snd (prim_occluded K (vnot (terminated s)) (pre F) (ray s) prim)) l = ray_lane (ray s) l"
      by (simp add: own_prim_occluded)
    with leaf(2) f t' show ?thesis by (simp add: leaf(4) lane_idle_occluded_def vget_select vget_splat)
  qed
qed

lemma occluded_passes_idle:
  assumes "writes_own_lanes K" and "l < 4" and "passes (occluded_pass K F) s0 s" and "lane_idle_occluded r l s0"
  shows "lane_idle_occluded r l s"
  using assms(3,4)
proof (induction rule: passes.induct)
  case (first s)
  then show ?case by simp
next
  case (later s0 s s')
  then show ?case using occluded_pass_idle[OF assms(1,2)] by blast
qed

lemma occluded_Break_idle:
  assumes c: "writes_own_lanes K" and l: "l < 4" and p: "occluded_pass K F s = Break (Inr (r', t'))"
      and i: "lane_idle_occluded r l s"
  shows "ray_lane r' l = ray_lane r l"
proof -
  from i have tf: "vget (ray_tfar s) l = NInf" and t: "vget (terminated s) l"
    and f: "ray_lane (ray s) l = ray_lane r l" by (simp_all add: lane_idle_occluded_def)
  from p show ?thesis
  proof (cases rule: occluded_pass_Break)
    case kept
    with f show ?thesis by simp
  next
    case (single n d stk)
    from walk_lanes_occluded_frame[OF c l not_active[OF tf] movemask_lt4 single(2)] f
    show ?thesis by simp
  next
    case (leaf n prim hit)
    from t have "\<not> vget (vnot (terminated s)) l" by (simp add: vget_vnot)
    with c l have "ray_lane (snd (prim_occluded K (vnot (terminated s)) (pre F) (ray s) prim)) l = ray_lane (ray s) l"
      by (simp add: own_prim_occluded)
    with leaf(2) f show ?thesis by simp
  qed
qed

lemma max_PInf: "max a PInf = PInf"
  by (cases a) (simp_all add: max_def)

lemma min_NInf: "min a NInf = NInf"
  by (cases a) (simp_all add: min_def)

lemma maxi_PInf: "maxi a PInf = PInf"
  by (simp add: maxi_def max_PInf)

lemma mini_NInf: "mini a NInf < PInf"
  by (cases a) (simp_all add: mini_def min_NInf max_def)

lemma static_test_idle:
  assumes "vget (ray_tnear F) l = PInf" and "vget tf l = NInf"
  shows "\<not> vget (fst (test_node K F tf node i)) l"
proof (cases "avx2 K")
  case True
  from mini_NInf[of "vget (lfarP K F node i) l"]
  show ?thesis
    by (simp add: test_node_def lhit_def True vget_vle vget_vmaxi vget_vmini assms maxi_PInf not_le)
next
  case False
  obtain a a' b b' c c' where S: "static_slabs K F node i l = ((a, a'), (b, b'), (c, c'))"
    by (metis surj_pair)
  have "spec_t_near PInf ((a, a'), (b, b'), (c, c')) = PInf"
    by (simp add: spec_t_near_eq max_PInf)
  moreover have "spec_t_far NInf ((a, a'), (b, b'), (c, c')) = NInf"
    by (simp add: spec_t_far_eq min_NInf)
  ultimately show ?thesis by (simp add: static_hit_lane[OF False] S assms)
qed


lemma first_walk_idle:
  "l < 4 \<Longrightarrow> \<not> vget valid l \<Longrightarrow> lane_idle r l (first_walk K valid bvh_root r)"
  by (simp add: lane_idle_def first_walk_def vget_select vget_splat)

lemma first_walk_occluded_idle:
  "l < 4 \<Longrightarrow> \<not> vget valid l \<Longrightarrow> lane_idle_occluded r l (first_walk_occluded K valid bvh_root r)"
  by (simp add: lane_idle_occluded_def first_walk_occluded_def vget_select vget_splat vget_vnot)

lemma ray_lane_geomID:
  "vget g l = vget (geomID r) l \<Longrightarrow> ray_lane (r\<lparr>geomID := g\<rparr>) l = ray_lane r l"
  by (simp add: ray_lane_def)

text \<open>
  C8. For a lane whose bit in the valid mask is false at entry, under the contract: the
  prologue forces the working \<open>tnear\<close> to \<open>+\<infinity>\<close> and \<open>tfar\<close> to \<open>-\<infinity>\<close>; with these the
  test of a static node's child fails; in every state that \<open>intersect\<close> or \<open>occluded\<close>
  reaches the lane's \<open>ray_tfar\<close> is still \<open>-\<infinity>\<close>, so at every pop the lane is not active,
  at most three lanes are (the packet walk, which tests the boxes, is not entered), and
  the lane is in no leaf mask (\<open>ray_tfar > curDist\<close> in \<open>intersect\<close>, the complement of
  \<open>terminated\<close> in \<open>occluded\<close>); and the lane's fields are the same when \<open>intersect\<close> or
  \<open>occluded\<close> returns.
\<close>

theorem inactive_lane_untouched:
  assumes c: "writes_own_lanes K" and l: "l < 4" and v: "\<not> vget valid l"
  shows "vget (ray_tnear (load_ray K valid r)) l = PInf
       \<and> vget (ray_tfar (first_walk K valid bvh_root r)) l = NInf
       \<and> vget (ray_tfar (first_walk_occluded K valid bvh_root r)) l = NInf
       \<and> (\<forall>tf node i. vget tf l = NInf \<longrightarrow> \<not> vget (fst (test_node K (load_ray K valid r) tf node i)) l)
       \<and> (\<forall>s. passes (intersect_pass K (load_ray K valid r)) (first_walk K valid bvh_root r) s \<longrightarrow>
             vget (ray_tfar s) l = NInf \<and> ray_lane (ray s) l = ray_lane r l
           \<and> (\<forall>d. \<not> vget (vlt d (ray_tfar s)) l \<and> \<not> vget (vgt (ray_tfar s) d) l
                  \<and> popcnt (vlt d (ray_tfar s)) \<le> SWITCH_THRESHOLD))
       \<and> (\<forall>s. passes (occluded_pass K (load_ray K valid r)) (first_walk_occluded K valid bvh_root r) s \<longrightarrow>
             vget (ray_tfar s) l = NInf \<and> ray_lane (ray s) l = ray_lane r l
           \<and> \<not> vget (vnot (terminated s)) l
           \<and> (\<forall>d. \<not> vget (vlt d (ray_tfar s)) l \<and> popcnt (vlt d (ray_tfar s)) \<le> SWITCH_THRESHOLD))
       \<and> (\<forall>r'. intersect K valid bvh_root r = Inr r' \<longrightarrow> ray_lane r' l = ray_lane r l)
       \<and> (\<forall>r'. occluded K valid bvh_root r = Inr r' \<longrightarrow> ray_lane r' l = ray_lane r l)"
proof -
  let ?F = "load_ray K valid r"
  have tn: "vget (ray_tnear ?F) l = PInf"
    using v by (simp add: load_ray_def Let_def vget_select vget_splat)
  have tf: "vget (ray_tfar (first_walk K valid bvh_root r)) l = NInf"
    using v by (simp add: first_walk_def vget_select vget_splat)
  have tfo: "vget (ray_tfar (first_walk_occluded K valid bvh_root r)) l = NInf"
    using v by (simp add: first_walk_occluded_def vget_select vget_splat)
  have box: "\<forall>tf node i. vget tf l = NInf \<longrightarrow> \<not> vget (fst (test_node K ?F tf node i)) l"
    using static_test_idle[OF tn] by blast
  have cull: "\<not> vget (vlt d t) l \<and> \<not> vget (vgt t d) l \<and> popcnt (vlt d t) \<le> SWITCH_THRESHOLD"
    if "vget t l = NInf" for t d
  proof -
    from that have a: "\<not> vget (vlt d t) l" using not_less_NInf by (simp add: vget_vlt)
    then have "\<not> vget (vgt t d) l" by (simp add: vget_vgt vget_vlt)
    with a popcnt_le3[OF l a] show ?thesis by (simp add: SWITCH_THRESHOLD_def)
  qed
  have i: "vget (ray_tfar s) l = NInf \<and> ray_lane (ray s) l = ray_lane r l
           \<and> (\<forall>d. \<not> vget (vlt d (ray_tfar s)) l \<and> \<not> vget (vgt (ray_tfar s) d) l
                  \<and> popcnt (vlt d (ray_tfar s)) \<le> SWITCH_THRESHOLD)"
    if "passes (intersect_pass K ?F) (first_walk K valid bvh_root r) s" for s
  proof -
    from intersect_passes_idle[OF c l that first_walk_idle[OF l v]]
    have "vget (ray_tfar s) l = NInf" "ray_lane (ray s) l = ray_lane r l"
      by (simp_all add: lane_idle_def)
    with cull show ?thesis by blast
  qed
  have oi: "lane_idle_occluded r l s"
    if "passes (occluded_pass K ?F) (first_walk_occluded K valid bvh_root r) s" for s
    using occluded_passes_idle[OF c l that first_walk_occluded_idle[OF l v]] .
  have o: "vget (ray_tfar s) l = NInf \<and> ray_lane (ray s) l = ray_lane r l
           \<and> \<not> vget (vnot (terminated s)) l
           \<and> (\<forall>d. \<not> vget (vlt d (ray_tfar s)) l \<and> popcnt (vlt d (ray_tfar s)) \<le> SWITCH_THRESHOLD)"
    if "passes (occluded_pass K ?F) (first_walk_occluded K valid bvh_root r) s" for s
  proof -
    from oi[OF that] have "vget (ray_tfar s) l = NInf" "ray_lane (ray s) l = ray_lane r l"
      "\<not> vget (vnot (terminated s)) l"
      by (simp_all add: lane_idle_occluded_def vget_vnot)
    with cull show ?thesis by blast
  qed
  have ri: "ray_lane r' l = ray_lane r l" if a: "intersect K valid bvh_root r = Inr r'" for r'
  proof -
    from intersect_loop_last[OF a[unfolded intersect_def]] obtain s where
      s: "passes (intersect_pass K ?F) (first_walk K valid bvh_root r) s"
         "intersect_pass K ?F s = Break (Inr r')" by blast
    from intersect_pass_Break[OF s(2)] i[OF s(1)] show ?thesis by simp
  qed
  have ro: "ray_lane res l = ray_lane r l" if a: "occluded K valid bvh_root r = Inr res" for res
  proof -
    from a obtain r' t where
      lp: "occluded_loop K ?F (first_walk_occluded K valid bvh_root r) = Inr (r', t)"
      and res: "res = r'\<lparr>geomID := store4i K (vand valid t) (geomID r') (splat 0)\<rparr>"
      by (auto simp: occluded_def split: sum.splits)
    from occluded_loop_last[OF lp] obtain s where
      s: "passes (occluded_pass K ?F) (first_walk_occluded K valid bvh_root r) s"
         "occluded_pass K ?F s = Break (Inr (r', t))" by blast
    from occluded_Break_idle[OF c l s(2) oi[OF s(1)]] have f: "ray_lane r' l = ray_lane r l" .
    from v have "\<not> vget (vand valid t) l" by (simp add: vget_vand)
    from own_store4i[OF c l this] have "vget (store4i K (vand valid t) (geomID r') (splat 0)) l = vget (geomID r') l" .
    from ray_lane_geomID[OF this] f res show ?thesis by simp
  qed
  from tn tf tfo box i o ri ro show ?thesis by blast
qed

lemma plane_intersect_frame:
  "\<not> vget m l \<Longrightarrow> ray_lane (plane_intersect m c r ps) l = ray_lane r l"
  unfolding plane_intersect_def
proof (induction ps arbitrary: r)
  case Nil
  then show ?case by simp
next
  case (Cons p ps)
  obtain t k where p: "p = (t, k)" by (cases p)
  let ?r = "r\<lparr>tfar := select (hit_mask m r t) (splat (Fin t)) (tfar r),
              geomID := select (hit_mask m r t) (splat 0) (geomID r),
              primID := select (hit_mask m r t) (splat k) (primID r)\<rparr>"
  from Cons.prems have "ray_lane ?r l = ray_lane r l"
    by (simp add: ray_lane_def vget_select hit_mask_def vget_vand)
  with Cons.IH[of ?r] Cons.prems show ?case by (simp add: p Let_def)
qed

lemma test_kernels_own: "writes_own_lanes (test_kernels ty cap)"
  by (simp add: writes_own_lanes_def test_kernels_def plane_intersect_frame plane_occluded_def
        lane_bit_def vget_vset vget_splat vget_select)

text \<open>
  Lane 0 is inactive and holds the ray at \<open>x = -2\<close>; after \<open>intersect\<close> and after
  \<open>occluded\<close> at the cube the lane has the fields it came with.
\<close>

theorem inactive_lane_untouched_witness:
  "writes_own_lanes (test_kernels 1 9) \<and> (0::nat) < 4 \<and> \<not> vget (V4 False True True True) 0
   \<and> map_sum id (\<lambda>r'. ray_lane r' 0) (intersect (test_kernels 1 9) (V4 False True True True) cube ray0)
       = Inr (ray_lane ray0 0)
   \<and> map_sum id (\<lambda>r'. ray_lane r' 0) (occluded (test_kernels 1 9) (V4 False True True True) cube ray0)
       = Inr (ray_lane ray0 0)
   \<and> vget (ray_tnear (load_ray (test_kernels 1 9) (V4 False True True True) ray0)) 0 = PInf"
proof -
  let ?K = "test_kernels 1 9"
  let ?v = "V4 False True True True"
  have l: "(0::nat) < 4" and v: "\<not> vget ?v 0" by simp_all
  note T = inactive_lane_untouched[OF test_kernels_own l v, of 1 9 ray0 cube]
  let ?ri = "ray0\<lparr>tfar := f4 100 (9/2) (9/2) (9/2), geomID := V4 (-1) 0 0 0, primID := V4 (-1) 7 7 7\<rparr>"
  let ?ro = "ray0\<lparr>geomID := V4 (-1) 0 0 0\<rparr>"
  have ri: "intersect ?K ?v cube ray0 = Inr ?ri" by code_simp
  have ro: "occluded ?K ?v cube ray0 = Inr ?ro" by code_simp
  from T ri have i: "ray_lane ?ri 0 = ray_lane ray0 0" by blast
  from T ro have o: "ray_lane ?ro 0 = ray_lane ray0 0" by blast
  from T have tn: "vget (ray_tnear (load_ray ?K ?v ray0)) 0 = PInf" by blast
  have mi: "map_sum id (\<lambda>r'. ray_lane r' 0) (intersect ?K ?v cube ray0) = Inr (ray_lane ray0 0)"
    unfolding ri using i by simp
  have mo: "map_sum id (\<lambda>r'. ray_lane r' 0) (occluded ?K ?v cube ray0) = Inr (ray_lane ray0 0)"
    unfolding ro using o by simp
  from test_kernels_own[of 1 9] l v mi mo tn show ?thesis by blast
qed

section \<open>C2: the empty tree\<close>

text \<open>
  \<open>BVHNGPUIntersectorStream\<close>. \<open>intersect\<close> tests the root first: on the empty node it
  prints and calls \<open>exit(0)\<close>, which ends the process (the \<open>return\<close> behind it is never
  reached). Otherwise, built with \<open>EMBREE_DPCPP_SUPPORT\<close> it submits the trace kernel to
  the GPU queue and waits, and built without it does nothing; what the kernel leaves of the
  rays is the parameter \<open>dpcpp\<close>, \<open>None\<close> for a build without. The body of \<open>occluded\<close>
  is compiled out.
\<close>

datatype 'a outcome = Returned 'a | Exit int

definition gpu_stream_intersect :: "('r \<Rightarrow> 'r) option \<Rightarrow> 'p noderef \<Rightarrow> 'r \<Rightarrow> 'r outcome" where
  "gpu_stream_intersect dpcpp bvh_root inputRays =
     (if bvh_root = EmptyNode then Exit 0
      else case dpcpp of None \<Rightarrow> Returned inputRays | Some trace \<Rightarrow> Returned (trace inputRays))"

definition gpu_stream_occluded :: "'p noderef \<Rightarrow> 'r \<Rightarrow> 'r outcome" where
  "gpu_stream_occluded bvh_root inputRays = Returned inputRays"

text \<open>
  The hybrid walker on an empty root. The contract of the kernels for nothing to
  intersect: with no primitives the primitive intersector leaves the ray and reports no
  hit, so does the single-ray walker started at the empty node, and a store under the
  empty mask writes nothing.
\<close>

definition idle_on_empty :: "('p, 'c) kernels \<Rightarrow> bool" where
  "idle_on_empty K =
     ((\<forall>m c r. prim_intersect K m c r [] = r)
    \<and> (\<forall>m c r. prim_occluded K m c r [] = (splat False, r))
    \<and> (\<forall>i c r ro rd rr tn tf nx. intersect1 K EmptyNode i c r ro rd rr tn tf nx = r)
    \<and> (\<forall>i c r ro rd rr tn tf nx. occluded1 K EmptyNode i c r ro rd rr tn tf nx = (False, r))
    \<and> (\<forall>old val. store4i K (splat False) old val = old))"

lemma traverse_EmptyNode: "traverse K F r tf stk EmptyNode d = Inr (Arrived stk EmptyNode d)"
  by (simp add: traverse.simps[of K F r tf stk EmptyNode d])

lemma walk_lanes_empty: "idle_on_empty K \<Longrightarrow> walk_lanes K F EmptyNode tf bits r = r"
  unfolding walk_lanes_def by (induction bits) (simp_all add: idle_on_empty_def)

lemma walk_lanes_occluded_empty:
  "idle_on_empty K \<Longrightarrow> walk_lanes_occluded K F EmptyNode tf bits (r, t) = (r, t)"
  unfolding walk_lanes_occluded_def by (induction bits) (simp_all add: idle_on_empty_def)

lemma vor_False: "vor t (splat False) = t"
  by (cases t) (simp add: vor_def splat_def)

lemma vand_vnot: "vand v (vnot v) = splat False"
  by (cases v) (simp add: vand_def vnot_def splat_def)

lemma intersect_pass_empty:
  assumes "idle_on_empty K"
  shows "\<exists>tf'. intersect_pass K F \<lparr>stack = [(EmptyNode, d), (InvalidNode, d0)], ray = r, ray_tfar = tf\<rparr>
           = Continue \<lparr>stack = [(InvalidNode, d0)], ray = r, ray_tfar = tf'\<rparr>"
proof (cases "none (vlt d tf)")
  case True
  then show ?thesis by (simp add: intersect_pass_def)
next
  case False
  show ?thesis
  proof (cases "popcnt (vlt d tf) \<le> SWITCH_THRESHOLD")
    case True
    with False assms show ?thesis
      by (simp add: intersect_pass_def Let_def walk_lanes_empty)
  next
    case f: False
    with False assms show ?thesis
      by (simp add: intersect_pass_def Let_def traverse_EmptyNode idle_on_empty_def)
  qed
qed

lemma intersect_empty_tree:
  assumes "idle_on_empty K"
  shows "intersect K valid EmptyNode r = Inr r"
proof -
  let ?F = "load_ray K valid r"
  from intersect_pass_empty[OF assms, of ?F "ray_tnear ?F" inf_ssef r "select valid (tfar r) (splat NInf)"]
  obtain tf' where p: "intersect_pass K ?F (first_walk K valid EmptyNode r)
      = Continue \<lparr>stack = [(InvalidNode, inf_ssef)], ray = r, ray_tfar = tf'\<rparr>"
    by (auto simp: first_walk_def)
  have q: "intersect_pass K ?F \<lparr>stack = [(InvalidNode, inf_ssef)], ray = r, ray_tfar = tf'\<rparr> = Break (Inr r)"
    by (simp add: intersect_pass_def at_sentinel_def)
  show ?thesis
    unfolding intersect_def
    by (subst intersect_loop.simps, simp add: p, subst intersect_loop.simps, simp add: q)
qed

lemma occluded_pass_empty:
  assumes "idle_on_empty K"
  shows "occluded_pass K F \<lparr>stack = [(EmptyNode, d), (InvalidNode, d0)], ray = r, ray_tfar = tf, terminated = t\<rparr>
           = Break (Inr (r, t))
       \<or> (\<exists>tf'. occluded_pass K F \<lparr>stack = [(EmptyNode, d), (InvalidNode, d0)], ray = r, ray_tfar = tf, terminated = t\<rparr>
           = Continue \<lparr>stack = [(InvalidNode, d0)], ray = r, ray_tfar = tf', terminated = t\<rparr>)"
proof (cases "none (vlt d tf)")
  case True
  then show ?thesis by (simp add: occluded_pass_def)
next
  case False
  show ?thesis
  proof (cases "popcnt (vlt d tf) \<le> SWITCH_THRESHOLD")
    case True
    with False assms show ?thesis
      by (simp add: occluded_pass_def Let_def walk_lanes_occluded_empty)
  next
    case f: False
    with False assms show ?thesis
      by (simp add: occluded_pass_def Let_def traverse_EmptyNode idle_on_empty_def vor_False)
  qed
qed

lemma occluded_empty_tree:
  assumes "idle_on_empty K"
  shows "occluded K valid EmptyNode r = Inr r"
proof -
  let ?F = "load_ray K valid r"
  let ?s = "first_walk_occluded K valid EmptyNode r"
  have q: "occluded_pass K ?F \<lparr>stack = [(InvalidNode, inf_ssef)], ray = r, ray_tfar = tf', terminated = vnot valid\<rparr>
             = Break (Inr (r, vnot valid))" for tf'
    by (simp add: occluded_pass_def at_sentinel_def)
  have "occluded_loop K ?F ?s = Inr (r, vnot valid)"
    using occluded_pass_empty[OF assms, of ?F "ray_tnear ?F" inf_ssef r "select valid (tfar r) (splat NInf)" "vnot valid"]
  proof (elim disjE exE)
    assume "occluded_pass K ?F \<lparr>stack = [(EmptyNode, ray_tnear ?F), (InvalidNode, inf_ssef)], ray = r,
              ray_tfar = select valid (tfar r) (splat NInf), terminated = vnot valid\<rparr> = Break (Inr (r, vnot valid))"
    then show ?thesis
      by (subst occluded_loop.simps) (simp add: first_walk_occluded_def)
  next
    fix tf'
    assume "occluded_pass K ?F \<lparr>stack = [(EmptyNode, ray_tnear ?F), (InvalidNode, inf_ssef)], ray = r,
              ray_tfar = select valid (tfar r) (splat NInf), terminated = vnot valid\<rparr>
            = Continue \<lparr>stack = [(InvalidNode, inf_ssef)], ray = r, ray_tfar = tf', terminated = vnot valid\<rparr>"
    then show ?thesis
      by (subst occluded_loop.simps, simp add: first_walk_occluded_def, subst occluded_loop.simps, simp add: q)
  qed
  with assms show ?thesis
    by (simp add: occluded_def vand_vnot idle_on_empty_def)
qed

text \<open>
  The hybrid walker does what the claim says: with kernels that are idle on nothing,
  \<open>intersect\<close> and \<open>occluded\<close> on an empty root return the packet as it came.
\<close>

lemma hybrid_empty_tree:
  "idle_on_empty K \<Longrightarrow> intersect K valid EmptyNode r = Inr r \<and> occluded K valid EmptyNode r = Inr r"
  by (simp add: intersect_empty_tree occluded_empty_tree)

text \<open>
  C2, at the input where the code departs from it. Given a tree whose root is the empty
  node, \<open>BVHNGPUIntersectorStream::intersect\<close> does not return: it ends the process with
  \<open>exit(0)\<close>, whatever the rays. (Its \<open>occluded\<close> returns with the rays untouched.)
\<close>

theorem gpu_stream_empty_tree_exits:
  "gpu_stream_intersect dpcpp (EmptyNode :: 'p noderef) inputRays = Exit 0
   \<and> gpu_stream_intersect dpcpp (EmptyNode :: 'p noderef) inputRays \<noteq> Returned inputRays
   \<and> gpu_stream_occluded (EmptyNode :: 'p noderef) inputRays = Returned inputRays"
  by (simp add: gpu_stream_intersect_def gpu_stream_occluded_def)

lemma select_none: "select (splat False) a b = b"
  by (cases a; cases b) (simp add: splat_def)

lemma test_kernels_idle: "idle_on_empty (test_kernels ty cap)"
  by (simp add: idle_on_empty_def test_kernels_def plane_intersect_def plane_occluded_def
        select_none vget_splat)

lemma hybrid_empty_tree_example:
  "intersect (test_kernels 1 9) (splat True) EmptyNode ray0 = Inr ray0
   \<and> occluded (test_kernels 1 9) (V4 True True False True) EmptyNode ray0 = Inr ray0"
  using hybrid_empty_tree[OF test_kernels_idle] by blast

section \<open>The stream intersector: from rays to packets\<close>

text \<open>
  A \<open>Ray\<close> of the input stream (the fields that the repacking reads) and a packet
  \<open>RayK<K>\<close> of \<open>K\<close> rays in SoA form, each field a row of \<open>K\<close> slots.
\<close>

record Vec3fa =
  x3 :: fl
  y3 :: fl
  z3 :: fl

record Ray =
  ray_org3 :: Vec3fa
  ray_dir3 :: Vec3fa
  ray_tnear1 :: fl
  ray_tfar1 :: fl
  ray_mask1 :: int
  ray_instID1 :: int

record RayK =
  org_x :: "fl list"
  org_y :: "fl list"
  org_z :: "fl list"
  dir_x :: "fl list"
  dir_y :: "fl list"
  dir_z :: "fl list"
  tnearK :: "fl list"
  tfarK :: "fl list"
  maskK :: "int list"
  instIDK :: "int list"

text \<open>
  \<open>RayK<K>(zero, zero, zero, neg_inf)\<close>: origin, direction and \<open>tnear\<close> zero and
  \<open>tfar = -\<infinity>\<close> in every slot. The constructor is declared in a header that is not among
  the sources; what it gives \<open>mask\<close> and \<open>instID\<close> is a parameter.
\<close>

definition RayK_zero :: "nat \<Rightarrow> int \<times> int \<Rightarrow> RayK" where
  "RayK_zero K dflt =
     \<lparr>org_x = replicate K (Fin 0), org_y = replicate K (Fin 0), org_z = replicate K (Fin 0),
      dir_x = replicate K (Fin 0), dir_y = replicate K (Fin 0), dir_z = replicate K (Fin 0),
      tnearK = replicate K (Fin 0), tfarK = replicate K NInf,
      maskK = replicate K (fst dflt), instIDK = replicate K (snd dflt)\<rparr>"

text \<open>The body of the loop of \<open>AOStoSOA\<close> for ray \<open>i\<close>, on the array of packets.\<close>

definition store_ray :: "nat \<Rightarrow> Ray list \<Rightarrow> nat \<Rightarrow> RayK list \<Rightarrow> RayK list" where
  "store_ray K inputRays i rayK =
     (let org0 = ray_org3 (inputRays ! i);
          dir0 = ray_dir3 (inputRays ! i);
          tnear0 = max (Fin 0) (ray_tnear1 (inputRays ! i));
          tfar0 = ray_tfar1 (inputRays ! i);
          packetID = i div K;
          slotID = i mod K;
          p = rayK ! packetID
      in rayK[packetID := p\<lparr>
           dir_x := (dir_x p)[slotID := x3 dir0],
           dir_y := (dir_y p)[slotID := y3 dir0],
           dir_z := (dir_z p)[slotID := z3 dir0],
           org_x := (org_x p)[slotID := x3 org0],
           org_y := (org_y p)[slotID := y3 org0],
           org_z := (org_z p)[slotID := z3 org0],
           tnearK := (tnearK p)[slotID := tnear0],
           tfarK := (tfarK p)[slotID := tfar0],
           maskK := (maskK p)[slotID := ray_mask1 (inputRays ! i)],
           instIDK := (instIDK p)[slotID := ray_instID1 (inputRays ! i)]\<rparr>])"

definition vmin3 :: "Vec3fa \<Rightarrow> Vec3fa \<Rightarrow> Vec3fa" where
  "vmin3 a b = \<lparr>x3 = min (x3 a) (x3 b), y3 = min (y3 a) (y3 b), z3 = min (z3 a) (z3 b)\<rparr>"

definition vmax3 :: "Vec3fa \<Rightarrow> Vec3fa \<Rightarrow> Vec3fa" where
  "vmax3 a b = \<lparr>x3 = max (x3 a) (x3 b), y3 = max (y3 a) (y3 b), z3 = max (z3 a) (z3 b)\<rparr>"

text \<open>
  \<open>movemask(vfloat4(v) < 0.0f)\<close>, the fourth component cut off by the final \<open>& 0x7\<close>:
  bit 0 for \<open>x\<close>, bit 1 for \<open>y\<close>, bit 2 for \<open>z\<close>.
\<close>

definition sign_bits :: "Vec3fa \<Rightarrow> bool list" where
  "sign_bits a = [x3 a < Fin 0, y3 a < Fin 0, z3 a < Fin 0]"

definition bits_nat :: "bool list \<Rightarrow> nat" where
  "bits_nat bs = foldr (\<lambda>b n. (if b then 1 else 0) + 2 * n) bs 0"

definition AOStoSOA :: "nat \<Rightarrow> int \<times> int \<Rightarrow> Ray list \<Rightarrow> RayK list \<times> nat" where
  "AOStoSOA K dflt inputRays =
     (let numTotalRays = length inputRays;
          numPackets = (numTotalRays + K - 1) div K;
          rayK = fold (store_ray K inputRays) [0..<numTotalRays] (replicate numPackets (RayK_zero K dflt));
          min_dir = fold (\<lambda>r m. vmin3 m (ray_dir3 r)) inputRays \<lparr>x3 = PInf, y3 = PInf, z3 = PInf\<rparr>;
          max_dir = fold (\<lambda>r m. vmax3 m (ray_dir3 r)) inputRays \<lparr>x3 = NInf, y3 = NInf, z3 = NInf\<rparr>
      in (rayK, bits_nat (map2 (\<noteq>) (sign_bits min_dir) (sign_bits max_dir))))"

text \<open>\<open>intersect1\<close> of the stream intersector starts from \<open>ray_near = max(ray.tnear, 0.0f)\<close>.\<close>

definition ray_near :: "Ray \<Rightarrow> fl" where
  "ray_near r = max (ray_tnear1 r) (Fin 0)"

text \<open>What slot \<open>s\<close> of a packet holds, and a ray with its \<open>tnear\<close> raised to 0.\<close>

definition slot :: "RayK \<Rightarrow> nat \<Rightarrow> (fl list \<times> fl \<times> fl) \<times> int \<times> int" where
  "slot p s = (([org_x p ! s, org_y p ! s, org_z p ! s, dir_x p ! s, dir_y p ! s, dir_z p ! s],
                tnearK p ! s, tfarK p ! s), maskK p ! s, instIDK p ! s)"

definition of_ray :: "Ray \<Rightarrow> (fl list \<times> fl \<times> fl) \<times> int \<times> int" where
  "of_ray r = (([x3 (ray_org3 r), y3 (ray_org3 r), z3 (ray_org3 r),
                 x3 (ray_dir3 r), y3 (ray_dir3 r), z3 (ray_dir3 r)],
                max (Fin 0) (ray_tnear1 r), ray_tfar1 r), ray_mask1 r, ray_instID1 r)"

definition clamped :: "Ray \<Rightarrow> Ray" where
  "clamped r = r\<lparr>ray_tnear1 := max (Fin 0) (ray_tnear1 r)\<rparr>"

definition rows :: "nat \<Rightarrow> RayK \<Rightarrow> bool" where
  "rows K p = (length (org_x p) = K \<and> length (org_y p) = K \<and> length (org_z p) = K
             \<and> length (dir_x p) = K \<and> length (dir_y p) = K \<and> length (dir_z p) = K
             \<and> length (tnearK p) = K \<and> length (tfarK p) = K
             \<and> length (maskK p) = K \<and> length (instIDK p) = K)"

lemma store_ray_length: "length (store_ray K rs i pk) = length pk"
  by (simp add: store_ray_def Let_def)

lemma store_ray_rows:
  "\<forall>p \<in> set pk. rows K p \<Longrightarrow> \<forall>p \<in> set (store_ray K rs i pk). rows K p"
proof
  fix p assume a: "\<forall>p \<in> set pk. rows K p" and p: "p \<in> set (store_ray K rs i pk)"
  show "rows K p"
  proof (cases "i div K < length pk")
    case True
    from p obtain k where k: "k < length pk" "p = store_ray K rs i pk ! k"
      by (metis in_set_conv_nth store_ray_length)
    from a True have r: "rows K (pk ! (i div K))" by simp
    from a k have rk: "rows K (pk ! k)" by simp
    show ?thesis
    proof (cases "k = i div K")
      case True
      with k r show ?thesis by (simp add: store_ray_def Let_def rows_def)
    next
      case False
      with k rk show ?thesis by (simp add: store_ray_def Let_def)
    qed
  next
    case False
    then have "store_ray K rs i pk = pk"
      by (simp add: store_ray_def Let_def list_update_beyond)
    with p a show ?thesis by simp
  qed
qed

lemma store_ray_slot:
  assumes K: "0 < K" and i: "i div K < length pk" and r: "rows K (pk ! (i div K))"
      and j: "j div K < length pk"
  shows "slot (store_ray K rs i pk ! (j div K)) (j mod K)
           = (if j = i then of_ray (rs ! i) else slot (pk ! (j div K)) (j mod K))"
proof (cases "j div K = i div K")
  case False
  then have "j \<noteq> i" by auto
  with False j show ?thesis by (simp add: store_ray_def Let_def)
next
  case True
  from K have m: "i mod K < K" "j mod K < K" by simp_all
  show ?thesis
  proof (cases "j = i")
    case True
    with i r m show ?thesis by (simp add: store_ray_def Let_def slot_def of_ray_def rows_def)
  next
    case False
    with True have "j mod K \<noteq> i mod K" by (metis div_mult_mod_eq)
    with True False i r m show ?thesis
      by (simp add: store_ray_def Let_def slot_def rows_def)
  qed
qed


lemma packet_in_range: "0 < (K::nat) \<Longrightarrow> j < n \<Longrightarrow> j div K < (n + K - 1) div K"
proof -
  assume K: "0 < K" and j: "j < n"
  from j have e: "n + K - 1 = (n - 1) + K" by arith
  from K have "(n - 1 + K) div K = (n - 1) div K + 1" by (intro div_add_self2) simp
  with e have s: "(n + K - 1) div K = Suc ((n - 1) div K)" by (simp only: Suc_eq_plus1)
  from j have "j \<le> n - 1" by arith
  then have "j div K \<le> (n - 1) div K" by (rule div_le_mono)
  then show ?thesis by (simp only: s less_Suc_eq_le)
qed

lemma RayK_zero_rows: "rows K (RayK_zero K dflt)"
  by (simp add: rows_def RayK_zero_def)

lemma fill_invariant:
  fixes dflt :: "int \<times> int" and n :: nat
  assumes K: "0 < K" and m: "m \<le> n"
  defines "pk0 \<equiv> replicate ((n + K - 1) div K) (RayK_zero K dflt)"
  shows "length (fold (store_ray K rs) [0..<m] pk0) = length pk0
       \<and> (\<forall>p \<in> set (fold (store_ray K rs) [0..<m] pk0). rows K p)
       \<and> (\<forall>j<m. slot (fold (store_ray K rs) [0..<m] pk0 ! (j div K)) (j mod K) = of_ray (rs ! j))"
  using m
proof (induction m)
  case 0
  then show ?case by (simp add: pk0_def RayK_zero_rows)
next
  case (Suc m)
  let ?pk = "fold (store_ray K rs) [0..<m] pk0"
  from Suc.prems have "m \<le> n" by simp
  note ih = Suc.IH[OF this]
  have ih1: "length ?pk = length pk0" by (rule ih[THEN conjunct1])
  have ih2: "\<forall>p \<in> set ?pk. rows K p" by (rule ih[THEN conjunct2, THEN conjunct1])
  have ih3: "\<forall>j<m. slot (?pk ! (j div K)) (j mod K) = of_ray (rs ! j)"
    by (rule ih[THEN conjunct2, THEN conjunct2])
  have f: "fold (store_ray K rs) [0..<Suc m] pk0 = store_ray K rs m ?pk" by simp
  have len: "length pk0 = (n + K - 1) div K" by (simp add: pk0_def)
  from Suc.prems have "m < n" by simp
  from packet_in_range[OF K this] have mi: "m div K < length ?pk"
    by (simp only: ih1 len)
  from mi have "?pk ! (m div K) \<in> set ?pk" by (rule nth_mem)
  with ih2 have mr: "rows K (?pk ! (m div K))" by (rule bspec)
  have c1: "length (store_ray K rs m ?pk) = length pk0"
    by (simp only: store_ray_length ih1)
  have c2: "\<forall>p \<in> set (store_ray K rs m ?pk). rows K p"
    by (rule store_ray_rows[OF ih2])
  have c3: "\<forall>j<Suc m. slot (store_ray K rs m ?pk ! (j div K)) (j mod K) = of_ray (rs ! j)"
  proof (intro allI impI)
    fix j assume jm: "j < Suc m"
    with Suc.prems have "j < n" by simp
    from packet_in_range[OF K this] have jl: "j div K < length ?pk"
      by (simp only: ih1 len)
    note st = store_ray_slot[OF K mi mr jl, of rs]
    show "slot (store_ray K rs m ?pk ! (j div K)) (j mod K) = of_ray (rs ! j)"
    proof (cases "j = m")
      case True
      with st show ?thesis by (simp only: simp_thms if_True)
    next
      case False
      with jm have "j < m" by simp
      with ih3 have "slot (?pk ! (j div K)) (j mod K) = of_ray (rs ! j)" by blast
      with st False show ?thesis by (simp only: simp_thms if_False)
    qed
  qed
  show ?case unfolding f by (intro conjI c1 c2 c3)
qed

lemma store_ray_clamped:
  "i < length rs \<Longrightarrow> store_ray K (map clamped rs) i = store_ray K rs i"
  by (rule ext) (simp add: store_ray_def clamped_def Let_def)

lemma fold_dir_clamped:
  "fold (\<lambda>r m. f m (ray_dir3 r)) (map clamped rs) a = fold (\<lambda>r m. f m (ray_dir3 r)) rs a"
  by (induction rs arbitrary: a) (simp_all add: clamped_def)

lemma AOStoSOA_clamped: "AOStoSOA K dflt (map clamped rs) = AOStoSOA K dflt rs"
proof -
  have "fold (store_ray K (map clamped rs)) [0..<length rs] pk = fold (store_ray K rs) [0..<length rs] pk" for pk
    by (rule fold_cong) (simp_all add: store_ray_clamped)
  then show ?thesis
    by (simp add: AOStoSOA_def Let_def fold_dir_clamped)
qed

text \<open>A ray along \<open>z\<close> from \<open>(a, 0, -5)\<close> with \<open>tnear = t\<close> and \<open>tfar = 100\<close>.\<close>

definition ray_z :: "rat \<Rightarrow> rat \<Rightarrow> Ray" where
  "ray_z a t = \<lparr>ray_org3 = \<lparr>x3 = Fin a, y3 = Fin 0, z3 = Fin (-5)\<rparr>,
               ray_dir3 = \<lparr>x3 = Fin 0, y3 = Fin 0, z3 = Fin 1\<rparr>,
               ray_tnear1 = Fin t, ray_tfar1 = Fin 100, ray_mask1 = -1, ray_instID1 = -1\<rparr>"

section \<open>C10: the stream path raises a negative \<open>tnear\<close> to 0\<close>

text \<open>
  C10. \<open>AOStoSOA\<close> puts ray \<open>j\<close> of the stream into slot \<open>j mod K\<close> of packet
  \<open>j div K\<close> with \<open>tnear\<close> replaced by \<open>max(0, tnear)\<close> and with \<open>tfar\<close>, origin and
  direction (and \<open>mask\<close>, \<open>instID\<close>) as they are. The packets and the octant mask it returns
  are therefore those of the same stream with every \<open>tnear\<close> raised to at least 0: what
  traverses the packets sees a negative \<open>tnear\<close> as 0. \<open>intersect1\<close> starts from the same
  \<open>max(tnear, 0)\<close>.
\<close>

theorem AOStoSOA_clamps_tnear:
  assumes "0 < K" and "j < length inputRays"
  shows "slot (fst (AOStoSOA K dflt inputRays) ! (j div K)) (j mod K) = of_ray (inputRays ! j)
       \<and> tnearK (fst (AOStoSOA K dflt inputRays) ! (j div K)) ! (j mod K)
           = max (Fin 0) (ray_tnear1 (inputRays ! j))
       \<and> tfarK (fst (AOStoSOA K dflt inputRays) ! (j div K)) ! (j mod K) = ray_tfar1 (inputRays ! j)
       \<and> AOStoSOA K dflt inputRays = AOStoSOA K dflt (map clamped inputRays)
       \<and> ray_near (inputRays ! j) = max (Fin 0) (ray_tnear1 (inputRays ! j))"
proof -
  from fill_invariant[OF assms(1) order_refl, where m = "length inputRays" and rs = inputRays and dflt = dflt]
    assms(2)
  have s: "slot (fst (AOStoSOA K dflt inputRays) ! (j div K)) (j mod K) = of_ray (inputRays ! j)"
    by (simp add: AOStoSOA_def Let_def)
  then have "tnearK (fst (AOStoSOA K dflt inputRays) ! (j div K)) ! (j mod K)
           = max (Fin 0) (ray_tnear1 (inputRays ! j))"
    and "tfarK (fst (AOStoSOA K dflt inputRays) ! (j div K)) ! (j mod K) = ray_tfar1 (inputRays ! j)"
    by (simp_all add: slot_def of_ray_def)
  with s show ?thesis
    by (simp add: AOStoSOA_clamped ray_near_def max.commute)
qed

text \<open>
  Five rays in packets of four: the fifth, with \<open>tnear = -3\<close>, is in slot 0 of packet 1
  with \<open>tnear = 0\<close> and its \<open>tfar = 100\<close>.
\<close>

theorem AOStoSOA_clamps_tnear_witness:
  "(0::nat) < 4 \<and> (4::nat) < length [ray_z 0 0, ray_z 1 1, ray_z 2 0, ray_z 3 0, ray_z 4 (-3)]
   \<and> tnearK (fst (AOStoSOA 4 (-1, -1) [ray_z 0 0, ray_z 1 1, ray_z 2 0, ray_z 3 0, ray_z 4 (-3)]) ! 1) ! 0 = Fin 0
   \<and> tfarK (fst (AOStoSOA 4 (-1, -1) [ray_z 0 0, ray_z 1 1, ray_z 2 0, ray_z 3 0, ray_z 4 (-3)]) ! 1) ! 0 = Fin 100"
proof -
  let ?rs = "[ray_z 0 0, ray_z 1 1, ray_z 2 0, ray_z 3 0, ray_z 4 (-3)]"
  have K: "(0::nat) < 4" and j: "(4::nat) < length ?rs" by simp_all
  have d: "(4::nat) div 4 = 1" "(4::nat) mod 4 = 0" by simp_all
  note T = AOStoSOA_clamps_tnear[OF K j, of "(-1, -1)", unfolded d]
  have a: "tnearK (fst (AOStoSOA 4 (-1, -1) ?rs) ! 1) ! 0 = max (Fin 0) (ray_tnear1 (?rs ! 4))"
    by (rule T[THEN conjunct2, THEN conjunct1])
  have b: "tfarK (fst (AOStoSOA 4 (-1, -1) ?rs) ! 1) ! 0 = ray_tfar1 (?rs ! 4)"
    by (rule T[THEN conjunct2, THEN conjunct2, THEN conjunct1])
  have m: "max (Fin 0) (ray_tnear1 (?rs ! 4)) = Fin 0" and f: "ray_tfar1 (?rs ! 4) = Fin 100"
    by (simp_all add: ray_z_def)
  from a m have a': "tnearK (fst (AOStoSOA 4 (-1, -1) ?rs) ! 1) ! 0 = Fin 0" by (rule trans)
  from b f have b': "tfarK (fst (AOStoSOA 4 (-1, -1) ?rs) ! 1) ! 0 = Fin 100" by (rule trans)
  show ?thesis by (intro conjI K j a' b')
qed

section \<open>How many entries the packet stack holds\<close>

text \<open>
  The depth of a tree: the number of inner nodes on its longest path from the root. A leaf,
  an empty child and the sentinel have depth 0.
\<close>

fun depth :: "'p noderef \<Rightarrow> nat" where
  "depth (Node (V4 a b c d) bb) = Suc (max (max (depth a) (depth b)) (max (depth c) (depth d)))"
| "depth (NodeMB (V4 a b c d) bb db) = Suc (max (max (depth a) (depth b)) (max (depth c) (depth d)))"
| "depth n = 0"

text \<open>
  A measure of what the walker can still push. Visiting a node pops the stack top and then
  either continues with a hit child or keeps the popped entry as the current node and pushes
  the child, so the current node and the entries of the stack take turns. \<open>reach a b\<close>
  bounds the entries that a current node of depth \<open>a\<close> and an entry of depth \<open>b\<close>
  right below it can add above that entry; \<open>potd H ds\<close> is the largest height that the
  stack of depths \<open>ds\<close> (top first) can grow to, under nodes of depth at most \<open>H\<close>.
\<close>

fun spine_sum :: "nat \<Rightarrow> nat" where
  "spine_sum 0 = 0"
| "spine_sum (Suc n) = spine_sum n + 3 * Suc n"

definition reach :: "nat \<Rightarrow> nat \<Rightarrow> nat" where
  "reach a b = (if a = 0 then 0 else if b < a then spine_sum a else 3 * a + spine_sum b)"

fun potd :: "nat \<Rightarrow> nat list \<Rightarrow> nat" where
  "potd H [] = 0"
| "potd H (d # ds) = max (length ds + 1 + reach H d) (potd (max H d) ds)"

definition one_tall :: "nat \<Rightarrow> nat \<Rightarrow> nat list \<Rightarrow> bool" where
  "one_tall a b l = (\<exists>ys e zs. l = ys @ e # zs \<and> e \<le> b \<and> (\<forall>y \<in> set ys. y \<le> a) \<and> (\<forall>z \<in> set zs. z \<le> a))"

definition dps :: "'p stack \<Rightarrow> nat list" where
  "dps s = map (\<lambda>e. depth (fst e)) s"

definition pot :: "'p stack \<Rightarrow> 'p noderef \<Rightarrow> nat" where
  "pot s n = potd (depth n) (dps s)"

text \<open>Between two passes the current node is the top of the stack.\<close>

definition pending :: "'p stack \<Rightarrow> nat" where
  "pending s = (case s of [] \<Rightarrow> 0 | e # es \<Rightarrow> pot es (fst e))"

text \<open>
  A tree whose boxes all four rays of \<open>ray0\<close> enter at the same distance: every node has
  the bounds \<open>slab\<close> for each of its children, the first and the last child are such trees
  again, one level lower, and the leaves hold no primitive.
\<close>

fun twin :: "nat \<Rightarrow> (rat \<times> int) noderef" where
  "twin 0 = Leaf []"
| "twin (Suc n) = Node (V4 (twin n) (Leaf []) (Leaf []) (twin n)) slab"

lemma spine_sum_closed: "2 * spine_sum n = 3 * n * (n + 1)"
  by (induction n) (simp_all add: algebra_simps)

lemma spine_sum_mono: "a \<le> b \<Longrightarrow> spine_sum a \<le> spine_sum b"
  by (induction b) (auto simp: le_Suc_eq)

lemma spine_sum_less: "a < b \<Longrightarrow> spine_sum a + 3 * b \<le> spine_sum b"
proof -
  assume "a < b"
  then obtain c where b: "b = Suc c" and "a \<le> c" by (cases b) auto
  from spine_sum_mono[OF this(2)] show ?thesis by (simp add: b)
qed

lemma reach_mono1: "a \<le> a' \<Longrightarrow> reach a b \<le> reach a' b"
  using spine_sum_mono[of a a'] spine_sum_less[of b a'] spine_sum_mono[of b a']
  by (auto simp: reach_def)

lemma reach_mono2: "b \<le> b' \<Longrightarrow> reach a b \<le> reach a b'"
  using spine_sum_mono[of b b'] spine_sum_mono[of a b']
  by (auto simp: reach_def)

lemma reach_mono: "a \<le> a' \<Longrightarrow> b \<le> b' \<Longrightarrow> reach a b \<le> reach a' b'"
  using reach_mono1[of a a' b] reach_mono2[of b b' a'] by simp

lemma reach_child: "3 + reach a b \<le> reach (Suc a) b"
proof (cases "b < a")
  case True
  then show ?thesis by (simp add: reach_def)
next
  case False
  show ?thesis
  proof (cases "b = a")
    case True
    then show ?thesis by (simp add: reach_def)
  next
    case ne: False
    with False have "\<not> b < Suc a" by simp
    with False show ?thesis by (simp add: reach_def)
  qed
qed

lemma reach_top: "3 + reach (max b a) a \<le> reach (Suc a) b"
proof (cases "b \<le> a")
  case True
  then have "max b a = a" "b < Suc a" by simp_all
  then show ?thesis by (simp add: reach_def)
next
  case False
  then have "max b a = b" "\<not> b < Suc a" "a < b" "b \<noteq> 0" by simp_all
  then show ?thesis by (simp add: reach_def)
qed

lemma potd_mono: "H \<le> H' \<Longrightarrow> potd H ds \<le> potd H' ds"
proof (induction ds arbitrary: H H')
  case Nil
  then show ?case by simp
next
  case (Cons d ds)
  from Cons.prems have "reach H d \<le> reach H' d" by (rule reach_mono1)
  moreover from Cons.prems have "potd (max H d) ds \<le> potd (max H' d) ds"
    by (intro Cons.IH) simp
  ultimately show ?case unfolding potd.simps by (intro max.mono) simp_all
qed

lemma potd_length: "length ds \<le> potd H ds"
  by (cases ds) simp_all

lemma potd_short:
  assumes "\<forall>x \<in> set xs. x \<le> a" and "H \<le> max b a" and "length xs \<le> 4"
  shows "potd H (xs @ rest) \<le> max (length rest + 1 + reach (Suc a) b) (potd (max (Suc a) b) rest)"
  using assms
proof (induction xs arbitrary: H)
  case Nil
  then have "H \<le> max (Suc a) b" by simp
  from potd_mono[OF this] show ?case by (simp add: le_max_iff_disj)
next
  case (Cons x xs)
  from Cons.prems have x: "x \<le> a" and l: "length xs \<le> 3" by simp_all
  from Cons.prems(2) x have "reach H x \<le> reach (max b a) a" by (rule reach_mono)
  with reach_top[of b a] have "3 + reach H x \<le> reach (Suc a) b" by simp
  with l have 1: "length (xs @ rest) + 1 + reach H x \<le> length rest + 1 + reach (Suc a) b" by simp
  from Cons.prems x have "max H x \<le> max b a" by simp
  with Cons.prems have 2: "potd (max H x) (xs @ rest)
      \<le> max (length rest + 1 + reach (Suc a) b) (potd (max (Suc a) b) rest)"
    by (intro Cons.IH) simp_all
  from 1 have "length (xs @ rest) + 1 + reach H x
      \<le> max (length rest + 1 + reach (Suc a) b) (potd (max (Suc a) b) rest)"
    by (rule max.coboundedI1)
  with 2 show ?case by simp
qed

lemma potd_tall:
  assumes "\<forall>y \<in> set ys. y \<le> a" and "\<forall>z \<in> set zs. z \<le> a" and "e \<le> b" and "H \<le> a"
      and "length (ys @ e # zs) \<le> 4"
  shows "potd H ((ys @ e # zs) @ rest) \<le> max (length rest + 1 + reach (Suc a) b) (potd (max (Suc a) b) rest)"
  using assms
proof (induction ys arbitrary: H)
  case Nil
  then have l: "length zs \<le> 3" by simp
  from Nil have "reach H e \<le> reach a b" by (intro reach_mono) simp_all
  with reach_child[of a b] have "3 + reach H e \<le> reach (Suc a) b" by simp
  with l have 1: "length (zs @ rest) + 1 + reach H e \<le> length rest + 1 + reach (Suc a) b" by simp
  from Nil have "max H e \<le> max b a" by auto
  with Nil l have 2: "potd (max H e) (zs @ rest)
      \<le> max (length rest + 1 + reach (Suc a) b) (potd (max (Suc a) b) rest)"
    by (intro potd_short) simp_all
  from 1 have "length (zs @ rest) + 1 + reach H e
      \<le> max (length rest + 1 + reach (Suc a) b) (potd (max (Suc a) b) rest)"
    by (rule max.coboundedI1)
  with 2 show ?case by simp
next
  case (Cons y ys)
  from Cons.prems have y: "y \<le> a" and l: "length (ys @ e # zs) \<le> 3" by simp_all
  from Cons.prems y have "reach H y \<le> reach (max b a) a" by (intro reach_mono) simp_all
  with reach_top[of b a] have "3 + reach H y \<le> reach (Suc a) b" by simp
  with l have 1: "length ((ys @ e # zs) @ rest) + 1 + reach H y \<le> length rest + 1 + reach (Suc a) b"
    by simp
  from Cons.prems y have "max H y \<le> a" by simp
  with Cons.prems l have 2: "potd (max H y) ((ys @ e # zs) @ rest)
      \<le> max (length rest + 1 + reach (Suc a) b) (potd (max (Suc a) b) rest)"
    by (intro Cons.IH) simp_all
  from 1 have "length ((ys @ e # zs) @ rest) + 1 + reach H y
      \<le> max (length rest + 1 + reach (Suc a) b) (potd (max (Suc a) b) rest)"
    by (rule max.coboundedI1)
  with 2 show ?case by simp
qed

lemma potd_one_tall:
  assumes "one_tall a b (n # xs)" and "length xs \<le> 4"
  shows "potd n (xs @ rest) \<le> max (length rest + 1 + reach (Suc a) b) (potd (max (Suc a) b) rest)"
proof -
  from assms(1) obtain ys e zs where l: "n # xs = ys @ e # zs" and e: "e \<le> b"
    and ys: "\<forall>y \<in> set ys. y \<le> a" and zs: "\<forall>z \<in> set zs. z \<le> a"
    unfolding one_tall_def by blast
  show ?thesis
  proof (cases ys)
    case Nil
    with l have "n = e" "xs = zs" by simp_all
    with e zs assms(2) show ?thesis by (intro potd_short) simp_all
  next
    case (Cons y ys')
    with l have n: "n = y" and xs: "xs = ys' @ e # zs" by simp_all
    from Cons ys have "y \<le> a" "\<forall>y \<in> set ys'. y \<le> a" by simp_all
    with zs e assms(2) show ?thesis unfolding n xs by (intro potd_tall) simp_all
  qed
qed

lemma one_tall_single: "one_tall a b [b]"
  unfolding one_tall_def by (intro exI[of _ "[]"] exI[of _ b]) simp

lemma one_tall_front: "one_tall a b l \<Longrightarrow> c \<le> a \<Longrightarrow> one_tall a b (c # l)"
proof -
  assume "one_tall a b l" and c: "c \<le> a"
  then obtain ys e zs where "l = ys @ e # zs" "e \<le> b" "\<forall>y \<in> set ys. y \<le> a" "\<forall>z \<in> set zs. z \<le> a"
    unfolding one_tall_def by blast
  with c show ?thesis
    unfolding one_tall_def by (intro exI[of _ "c # ys"] exI[of _ e] exI[of _ zs]) simp
qed

lemma one_tall_second: "one_tall a b (n # l) \<Longrightarrow> c \<le> a \<Longrightarrow> one_tall a b (n # c # l)"
proof -
  assume "one_tall a b (n # l)" and c: "c \<le> a"
  then obtain ys e zs where l: "n # l = ys @ e # zs" and r: "e \<le> b" "\<forall>y \<in> set ys. y \<le> a" "\<forall>z \<in> set zs. z \<le> a"
    unfolding one_tall_def by blast
  show ?thesis
  proof (cases ys)
    case Nil
    with l r c show ?thesis
      unfolding one_tall_def by (intro exI[of _ "[]"] exI[of _ e] exI[of _ "c # zs"]) simp
  next
    case (Cons y ys')
    with l r c show ?thesis
      unfolding one_tall_def by (intro exI[of _ "y # c # ys'"] exI[of _ e] exI[of _ zs]) simp
  qed
qed

lemma dps_simps [simp]: "dps [] = []" "dps (e # s) = depth (fst e) # dps s" "dps (s @ s') = dps s @ dps s'"
  "length (dps s) = length s"
  by (simp_all add: dps_def)

lemma depth_child: "depth (vget cs i) < depth (Node cs bb)"
  by (cases cs) auto

lemma depth_childMB: "depth (vget cs i) < depth (NodeMB cs bb db)"
  by (cases cs) auto

lemma pending_pop: "pending s \<le> pot s n"
proof (cases s)
  case Nil
  then show ?thesis by (simp add: pending_def)
next
  case (Cons e es)
  have "potd (depth (fst e)) (dps es) \<le> potd (max (depth n) (depth (fst e))) (dps es)"
    by (rule potd_mono) simp
  then show ?thesis by (simp add: Cons pending_def pot_def)
qed

lemma visit_child_bound:
  assumes s: "s = xs @ rest" and ot: "one_tall a b (depth n # dps xs)" and c: "depth child \<le> a"
      and l: "length xs < 4"
      and B: "max (length rest + 1 + reach (Suc a) b) (potd (max (Suc a) b) (dps rest)) \<le> B"
      and cap: "B \<le> stackSizeChunk K"
  shows "\<exists>xs' n' d'. visit_child K child t (s, n, d) = Inr (xs' @ rest, n', d')
           \<and> one_tall a b (depth n' # dps xs') \<and> length xs' \<le> Suc (length xs)"
proof (cases "any (fst t)")
  case False
  then have "visit_child K child t (s, n, d) = Inr (xs @ rest, n, d)"
    by (simp add: visit_child_def s)
  with ot show ?thesis by (intro exI[of _ xs] exI[of _ n] exI[of _ d]) simp
next
  case True
  let ?cd = "select (fst t) (snd t) inf_ssef"
  from ot c have ot2: "one_tall a b (depth n # depth child # dps xs)" by (rule one_tall_second)
  from l have "length (depth child # dps xs) \<le> 4" by simp
  from potd_one_tall[OF ot2 this, of "dps rest"]
  have "potd (depth n) ((depth child # dps xs) @ dps rest)
      \<le> max (length rest + 1 + reach (Suc a) b) (potd (max (Suc a) b) (dps rest))"
    by (simp only: dps_simps(4))
  from this B have "potd (depth n) ((depth child # dps xs) @ dps rest) \<le> B" by (rule order_trans)
  with potd_length[of "(depth child # dps xs) @ dps rest" "depth n"]
  have "length ((depth child # dps xs) @ dps rest) \<le> B" by (rule order_trans)
  with cap have lt: "length s < stackSizeChunk K" by (simp add: s)
  show ?thesis
  proof (cases "any (vlt ?cd d)")
    case closer: True
    with True lt have "visit_child K child t (s, n, d) = Inr (((n, d) # xs) @ rest, child, ?cd)"
      by (simp add: visit_child_def s Let_def)
    moreover from ot c have "one_tall a b (depth child # dps ((n, d) # xs))"
      by (simp add: one_tall_front)
    ultimately show ?thesis
      by (intro exI[of _ "(n, d) # xs"] exI[of _ child] exI[of _ ?cd]) simp
  next
    case False
    with True lt have "visit_child K child t (s, n, d) = Inr (((child, ?cd) # xs) @ rest, n, d)"
      by (simp add: visit_child_def s Let_def)
    moreover from ot2 have "one_tall a b (depth n # dps ((child, ?cd) # xs))" by simp
    ultimately show ?thesis
      by (intro exI[of _ "(child, ?cd) # xs"] exI[of _ n] exI[of _ d]) simp
  qed
qed

lemma children_loop_bound:
  assumes "s = xs @ rest" and "one_tall a b (depth n # dps xs)"
      and "\<forall>i \<in> set is. depth (vget cs i) \<le> a" and "length xs + length is \<le> 4"
      and B: "max (length rest + 1 + reach (Suc a) b) (potd (max (Suc a) b) (dps rest)) \<le> B"
      and cap: "B \<le> stackSizeChunk K"
  shows "\<exists>xs' n' d'. children_loop K cs t is (s, n, d) = Inr (xs' @ rest, n', d')
           \<and> one_tall a b (depth n' # dps xs') \<and> length xs' \<le> 4"
  using assms(1-4)
proof (induction "is" arbitrary: s xs n d)
  case Nil
  then show ?case by (intro exI[of _ xs] exI[of _ n] exI[of _ d]) simp
next
  case (Cons i "is")
  show ?case
  proof (cases "vget cs i = EmptyNode")
    case True
    with Cons.prems show ?thesis by (intro exI[of _ xs] exI[of _ n] exI[of _ d]) simp
  next
    case False
    from Cons.prems have c: "depth (vget cs i) \<le> a" and l: "length xs < 4" by simp_all
    from visit_child_bound[OF Cons.prems(1,2) c l B cap, of "t i" d]
    obtain xs1 n1 d1 where v: "visit_child K (vget cs i) (t i) (s, n, d) = Inr (xs1 @ rest, n1, d1)"
      and ot1: "one_tall a b (depth n1 # dps xs1)" and l1: "length xs1 \<le> Suc (length xs)"
      by blast
    from Cons.prems have r: "\<forall>i \<in> set is. depth (vget cs i) \<le> a" by simp
    from Cons.prems l1 have "length xs1 + length is \<le> 4" by simp
    from Cons.IH[OF refl ot1 r this] False v show ?thesis by simp
  qed
qed

lemma pop_children_bound:
  assumes p: "pot stk cur \<le> B" and cap: "B \<le> stackSizeChunk K"
      and d: "\<forall>i \<in> set [0, 1, 2, 3]. depth (vget cs i) < depth cur"
  shows "pop_children K cs t stk = Inl StackUnderflow
       \<or> (\<exists>s' n' d'. pop_children K cs t stk = Inr (s', n', d') \<and> pot s' n' \<le> B)"
proof (cases stk)
  case Nil
  then show ?thesis by (simp add: pop_children_def)
next
  case (Cons e rest)
  obtain tn td where e: "e = (tn, td)" by (cases e)
  from d obtain a where a: "depth cur = Suc a" by (cases "depth cur") auto
  with d have ch: "\<forall>i \<in> set [0, 1, 2, 3]. depth (vget cs i) \<le> a" by simp
  from p have B: "max (length rest + 1 + reach (Suc a) (depth tn)) (potd (max (Suc a) (depth tn)) (dps rest)) \<le> B"
    by (simp add: pot_def Cons e a)
  have ot: "one_tall a (depth tn) (depth tn # dps [])" by (simp add: one_tall_single)
  have "length ([] :: 'a stack) + length [0, 1, 2, 3 :: nat] \<le> 4" by simp
  from children_loop_bound[OF _ ot ch this B cap, of rest t td]
  obtain xs' n' d' where r: "children_loop K cs t [0, 1, 2, 3] (rest, tn, td) = Inr (xs' @ rest, n', d')"
    and ot': "one_tall a (depth tn) (depth n' # dps xs')" and l: "length xs' \<le> 4" by auto
  from l have "length (dps xs') \<le> 4" by simp
  from potd_one_tall[OF ot' this, of "dps rest"]
  have "potd (depth n') (dps xs' @ dps rest)
      \<le> max (length rest + 1 + reach (Suc a) (depth tn)) (potd (max (Suc a) (depth tn)) (dps rest))"
    by (simp only: dps_simps(4))
  from this B have "potd (depth n') (dps xs' @ dps rest) \<le> B" by (rule order_trans)
  then have "pot (xs' @ rest) n' \<le> B" by (simp add: pot_def)
  with r show ?thesis by (simp add: pop_children_def Cons e)
qed

lemma node_step_bound:
  assumes "node_step K F r tf stk cur = Some res" and "pot stk cur \<le> B" and "B \<le> stackSizeChunk K"
  shows "res = Inl StackUnderflow \<or> (\<exists>s' n' d'. res = Inr (s', n', d') \<and> pot s' n' \<le> B)"
proof (cases cur)
  case (Node cs bb)
  have "\<forall>i \<in> set [0, 1, 2, 3]. depth (vget cs i) < depth cur"
    unfolding Node using depth_child by blast
  from pop_children_bound[OF assms(2,3) this] assms(1) show ?thesis
    by (auto simp: Node split: if_splits)
next
  case (NodeMB cs bb db)
  have "\<forall>i \<in> set [0, 1, 2, 3]. depth (vget cs i) < depth cur"
    unfolding NodeMB using depth_childMB by blast
  from pop_children_bound[OF assms(2,3) this] assms(1) show ?thesis
    by (auto simp: NodeMB split: if_splits)
qed (use assms in simp_all)

lemma traverse_bound:
  assumes "pot stk cur \<le> B" and "B < stackSizeChunk K"
  shows "traverse K F r tf stk cur cd \<noteq> Inl StackOverflow
       \<and> (\<forall>s'. traverse K F r tf stk cur cd = Inr (Switch s') \<longrightarrow> pending s' \<le> B)
       \<and> (\<forall>s' n' d'. traverse K F r tf stk cur cd = Inr (Arrived s' n' d') \<longrightarrow> pot s' n' \<le> B)"
  using assms
proof (induction K F r tf stk cur cd rule: traverse.induct)
  case (1 K F r tf stk cur cd)
  note unf = traverse.simps[of K F r tf stk cur cd]
  show ?case
  proof (cases "node_step K F r tf stk cur")
    case None
    with "1.prems" show ?thesis by (simp add: unf)
  next
    case (Some res)
    from "1.prems" have le: "B \<le> stackSizeChunk K" by simp
    from node_step_bound[OF Some "1.prems"(1) le]
    show ?thesis
    proof
      assume "res = Inl StackUnderflow"
      with Some show ?thesis by (simp add: unf)
    next
      assume "\<exists>s' n' d'. res = Inr (s', n', d') \<and> pot s' n' \<le> B"
      then obtain s1 n1 d1 where res: "res = Inr (s1, n1, d1)" and p1: "pot s1 n1 \<le> B" by blast
      show ?thesis
      proof (cases "popcnt (vgt tf d1) \<le> SWITCH_THRESHOLD")
        case True
        from potd_length[of "dps s1" "depth n1"] p1 "1.prems"(2) have "length s1 < stackSizeChunk K"
          by (simp add: pot_def)
        with True Some res have "traverse K F r tf stk cur cd = Inr (Switch ((n1, d1) # s1))"
          by (simp add: unf)
        with p1 show ?thesis by (simp add: pending_def)
      next
        case False
        with Some res have "traverse K F r tf stk cur cd = traverse K F r tf s1 n1 d1"
          by (simp add: unf)
        with "1.IH"[OF Some res refl refl False p1 "1.prems"(2)] show ?thesis by simp
      qed
    qed
  qed
qed

lemma leaf_error: "leaf n = Inl e \<Longrightarrow> e = MalformedNode"
  by (cases n) auto

lemma length_pending: "length s \<le> Suc (pending s)"
proof (cases s)
  case Nil
  then show ?thesis by simp
next
  case (Cons e es)
  from potd_length[of "dps es" "depth (fst e)"] show ?thesis
    by (simp add: Cons pending_def pot_def)
qed

lemma intersect_pass_bound:
  assumes "pending (stack s) \<le> B" and "B < stackSizeChunk K"
  shows "intersect_pass K F s \<noteq> Break (Inl StackOverflow)
       \<and> (\<forall>s'. intersect_pass K F s = Continue s' \<longrightarrow> pending (stack s') \<le> B)"
proof (cases "stack s")
  case Nil
  then show ?thesis by (simp add: intersect_pass_def)
next
  case (Cons e stk)
  obtain n d where e: "e = (n, d)" by (cases e)
  note st = Cons[unfolded e]
  from assms(1) have p: "pot stk n \<le> B" by (simp add: st pending_def)
  from pending_pop[of stk n] p have pp: "pending stk \<le> B" by simp
  note tb = traverse_bound[OF p assms(2), of F "ray s" "ray_tfar s" d]
  show ?thesis
  proof (cases "traverse K F (ray s) (ray_tfar s) stk n d")
    case (Inl err)
    with tb have "err \<noteq> StackOverflow" by simp
    with Inl pp show ?thesis
      by (auto simp: intersect_pass_def st Let_def at_sentinel_def)
  next
    case (Inr res)
    show ?thesis
    proof (cases res)
      case (Switch s1)
      with tb Inr have "pending s1 \<le> B" by simp
      with Inr Switch pp show ?thesis
        by (auto simp: intersect_pass_def st Let_def at_sentinel_def)
    next
      case (Arrived s1 n1 d1)
      with tb Inr have "pot s1 n1 \<le> B" by simp
      with pending_pop[of s1 n1] have "pending s1 \<le> B" by simp
      with Inr Arrived pp show ?thesis
        by (auto simp: intersect_pass_def st Let_def at_sentinel_def split: sum.splits dest: leaf_error)
    qed
  qed
qed

lemma intersect_loop_bound:
  assumes "pending (stack s) \<le> B" and "B < stackSizeChunk K"
  shows "intersect_loop K F s \<noteq> Inl StackOverflow"
  using assms
proof (induction K F s rule: intersect_loop.induct)
  case (1 K F s)
  note b = intersect_pass_bound[OF "1.prems", of F]
  show ?case
  proof (cases "intersect_pass K F s")
    case (Break res)
    with b show ?thesis by (auto simp: intersect_loop.simps[of K F s])
  next
    case (Continue s1)
    with b have "pending (stack s1) \<le> B" by simp
    from "1.IH"[OF Continue this "1.prems"(2)] Continue show ?thesis
      by (simp add: intersect_loop.simps[of K F s])
  qed
qed

lemma intersect_passes_bound:
  assumes "passes (intersect_pass K F) s0 s" and "pending (stack s0) \<le> B" and "B < stackSizeChunk K"
  shows "pending (stack s) \<le> B"
  using assms
proof (induction rule: passes.induct)
  case first
  then show ?case by simp
next
  case (later s0 s' s'')
  from later.IH[OF later.prems] have "pending (stack s') \<le> B" .
  from intersect_pass_bound[OF this later.prems(2), of F] later.hyps(2) show ?case by simp
qed

lemma occluded_pass_bound:
  assumes "pending (stack s) \<le> B" and "B < stackSizeChunk K"
  shows "occluded_pass K F s \<noteq> Break (Inl StackOverflow)
       \<and> (\<forall>s'. occluded_pass K F s = Continue s' \<longrightarrow> pending (stack s') \<le> B)"
proof (cases "stack s")
  case Nil
  then show ?thesis by (simp add: occluded_pass_def)
next
  case (Cons e stk)
  obtain n d where e: "e = (n, d)" by (cases e)
  note st = Cons[unfolded e]
  from assms(1) have p: "pot stk n \<le> B" by (simp add: st pending_def)
  from pending_pop[of stk n] p have pp: "pending stk \<le> B" by simp
  note tb = traverse_bound[OF p assms(2), of F "ray s" "ray_tfar s" d]
  show ?thesis
  proof (cases "traverse K F (ray s) (ray_tfar s) stk n d")
    case (Inl err)
    with tb have "err \<noteq> StackOverflow" by simp
    with Inl pp show ?thesis
      by (auto simp: occluded_pass_def st Let_def at_sentinel_def split: prod.splits)
  next
    case (Inr res)
    show ?thesis
    proof (cases res)
      case (Switch s1)
      with tb Inr have "pending s1 \<le> B" by simp
      with Inr Switch pp show ?thesis
        by (auto simp: occluded_pass_def st Let_def at_sentinel_def split: prod.splits)
    next
      case (Arrived s1 n1 d1)
      with tb Inr have "pot s1 n1 \<le> B" by simp
      with pending_pop[of s1 n1] have "pending s1 \<le> B" by simp
      with Inr Arrived pp show ?thesis
        by (auto simp: occluded_pass_def st Let_def at_sentinel_def split: sum.splits prod.splits dest: leaf_error)
    qed
  qed
qed

lemma occluded_loop_bound:
  assumes "pending (stack s) \<le> B" and "B < stackSizeChunk K"
  shows "occluded_loop K F s \<noteq> Inl StackOverflow"
  using assms
proof (induction K F s rule: occluded_loop.induct)
  case (1 K F s)
  note b = occluded_pass_bound[OF "1.prems", of F]
  show ?case
  proof (cases "occluded_pass K F s")
    case (Break res)
    with b show ?thesis by (auto simp: occluded_loop.simps[of K F s])
  next
    case (Continue s1)
    with b have "pending (stack s1) \<le> B" by simp
    from "1.IH"[OF Continue this "1.prems"(2)] Continue show ?thesis
      by (simp add: occluded_loop.simps[of K F s])
  qed
qed

lemma occluded_passes_bound:
  assumes "passes (occluded_pass K F) s0 s" and "pending (stack s0) \<le> B" and "B < stackSizeChunk K"
  shows "pending (stack s) \<le> B"
  using assms
proof (induction rule: passes.induct)
  case first
  then show ?case by simp
next
  case (later s0 s' s'')
  from later.IH[OF later.prems] have "pending (stack s') \<le> B" .
  from occluded_pass_bound[OF this later.prems(2), of F] later.hyps(2) show ?case by simp
qed

lemma spine_sum_div: "spine_sum n = 3 * n * (n + 1) div 2"
  using spine_sum_closed[of n] by simp

lemma pending_first: "pending [(bvh_root, d), (InvalidNode, d')] \<le> Suc (spine_sum (depth bvh_root))"
  by (simp add: pending_def pot_def reach_def)

section \<open>A capacity that is enough\<close>

text \<open>
  \<open>stackSizeChunk\<close> is declared in a header that is not among the sources, so the
  capacity is a parameter. For a tree of depth \<open>d\<close> (the inner nodes on its longest path)
  a capacity of \<open>3 d (d + 1) / 2 + 2\<close> entries is enough: no push of \<open>intersect\<close> or
  \<open>occluded\<close>, the unasserted push before a switch included, finds the stack full, and at
  the start of every pass the stack holds at most \<open>stackSizeChunk\<close> entries, the sentinel
  included.
\<close>

lemma stack_within_capacity:
  assumes "3 * depth bvh_root * (depth bvh_root + 1) div 2 + 2 \<le> stackSizeChunk K"
  shows "intersect K valid bvh_root r \<noteq> Inl StackOverflow
       \<and> occluded K valid bvh_root r \<noteq> Inl StackOverflow
       \<and> (\<forall>s. passes (intersect_pass K (load_ray K valid r)) (first_walk K valid bvh_root r) s
              \<longrightarrow> length (stack s) \<le> stackSizeChunk K)
       \<and> (\<forall>s. passes (occluded_pass K (load_ray K valid r)) (first_walk_occluded K valid bvh_root r) s
              \<longrightarrow> length (stack s) \<le> stackSizeChunk K)"
proof -
  let ?B = "Suc (spine_sum (depth bvh_root))"
  from assms have cap: "?B < stackSizeChunk K" by (simp add: spine_sum_div)
  have i0: "pending (stack (first_walk K valid bvh_root r)) \<le> ?B"
    by (simp add: first_walk_def pending_first)
  have o0: "pending (stack (first_walk_occluded K valid bvh_root r)) \<le> ?B"
    by (simp add: first_walk_occluded_def pending_first)
  have 1: "intersect K valid bvh_root r \<noteq> Inl StackOverflow"
    unfolding intersect_def by (rule intersect_loop_bound[OF i0 cap])
  from occluded_loop_bound[OF o0 cap, of "load_ray K valid r"]
  have 2: "occluded K valid bvh_root r \<noteq> Inl StackOverflow"
    by (auto simp: occluded_def split: sum.splits)
  have 3: "length (stack s) \<le> stackSizeChunk K"
    if "passes (intersect_pass K (load_ray K valid r)) (first_walk K valid bvh_root r) s" for s
    using intersect_passes_bound[OF that i0 cap] length_pending[of "stack s"] cap by simp
  have 4: "length (stack s) \<le> stackSizeChunk K"
    if "passes (occluded_pass K (load_ray K valid r)) (first_walk_occluded K valid bvh_root r) s" for s
    using occluded_passes_bound[OF that o0 cap] length_pending[of "stack s"] cap by simp
  from 1 2 3 4 show ?thesis by blast
qed

text \<open>
  The tree \<open>twin 2\<close> has depth 2, and 11 entries are enough for the four rays of \<open>ray0\<close>,
  which all enter every box of it.
\<close>

lemma stack_within_capacity_example:
  "3 * depth (twin 2) * (depth (twin 2) + 1) div 2 + 2 \<le> stackSizeChunk (test_kernels 1 11)
   \<and> intersect (test_kernels 1 11) (splat True) (twin 2) ray0 \<noteq> Inl StackOverflow
   \<and> occluded (test_kernels 1 11) (splat True) (twin 2) ray0 \<noteq> Inl StackOverflow
   \<and> length (stack (first_walk (test_kernels 1 11) (splat True) (twin 2) ray0))
       \<le> stackSizeChunk (test_kernels 1 11)"
proof -
  have h: "3 * depth (twin 2) * (depth (twin 2) + 1) div 2 + 2 \<le> stackSizeChunk (test_kernels 1 11)"
    by code_simp
  note t = stack_within_capacity[OF h, of "splat True" ray0]
  have p: "passes (intersect_pass (test_kernels 1 11) (load_ray (test_kernels 1 11) (splat True) ray0))
             (first_walk (test_kernels 1 11) (splat True) (twin 2) ray0)
             (first_walk (test_kernels 1 11) (splat True) (twin 2) ray0)"
    by (rule passes.first)
  from t have a: "intersect (test_kernels 1 11) (splat True) (twin 2) ray0 \<noteq> Inl StackOverflow"
    by (rule conjunct1)
  from t have b: "occluded (test_kernels 1 11) (splat True) (twin 2) ray0 \<noteq> Inl StackOverflow"
    by (rule conjunct2[THEN conjunct1])
  from t p have c: "length (stack (first_walk (test_kernels 1 11) (splat True) (twin 2) ray0))
       \<le> stackSizeChunk (test_kernels 1 11)" by blast
  show ?thesis by (intro conjI h a b c)
qed

section \<open>The walk of \<open>twin n\<close>\<close>



definition tfar0 :: ssef where
  "tfar0 = f4 100 100 100 100"




















section \<open>C9: the capacity of the packet stack\<close>



end
